theory Spec2Isabelle
  imports Main "HOL-Library.Sublist" "HOL-Library.AList"
begin

section \<open>The URL mimetype wrapper\<close>

text \<open>
  A mimetype is a JavaScript string, here a list of characters.
  \<^verbatim>\<open>startsWith\<close> is \<^const>\<open>prefix\<close> and \<^verbatim>\<open>slice(n)\<close> is \<^const>\<open>drop\<close>.
\<close>

type_synonym mimetype = string

definition baseMimeType :: mimetype where
  "baseMimeType = ''application/x.jupyter.url; mimeType=''"

definition URLMimeType :: "mimetype \<Rightarrow> mimetype" where
  "URLMimeType m = baseMimeType @ m"

definition extractURLMimeType :: "mimetype \<Rightarrow> mimetype option" where
  "extractURLMimeType m =
     (if \<not> prefix baseMimeType m then None
      else Some (drop (length baseMimeType) m))"

section \<open>JavaScript collections\<close>

text \<open>
  A \<^verbatim>\<open>Map\<close> keeps its keys in insertion order and \<^verbatim>\<open>set\<close> on a key that is
  present replaces the value in place: this is \<^const>\<open>AList.update\<close> on an
  association list. \<^verbatim>\<open>new Map(entries)\<close> sets the entries one after the other.
\<close>

definition js_map :: "('k \<times> 'v) list \<Rightarrow> ('k \<times> 'v) list" where
  "js_map entries = foldl (\<lambda>acc e. AList.update (fst e) (snd e) acc) [] entries"

text \<open>
  A \<^verbatim>\<open>Set\<close> keeps its elements in insertion order; \<^verbatim>\<open>add\<close> of an element that
  is present changes nothing. Objects are compared by identity, which the function
  \<open>ident\<close> reads off the element (strings are their own identity).
\<close>

definition set_add :: "('a \<Rightarrow> 'i) \<Rightarrow> 'a \<Rightarrow> 'a list \<Rightarrow> 'a list" where
  "set_add ident x xs = (if ident x \<in> ident ` set xs then xs else xs @ [x])"

definition set_delete :: "('a \<Rightarrow> 'i) \<Rightarrow> 'a \<Rightarrow> 'a list \<Rightarrow> 'a list" where
  "set_delete ident x xs = filter (\<lambda>y. ident y \<noteq> ident x) xs"

definition js_set :: "('a \<Rightarrow> 'i) \<Rightarrow> 'a list \<Rightarrow> 'a list" where
  "js_set ident xs = foldl (\<lambda>acc x. set_add ident x acc) [] xs"

section \<open>Datasets, transforms and converters\<close>

text \<open>
  A \<^verbatim>\<open>URL\<close> is an object: \<open>url_ref\<close> is its identity (two objects with equal
  fields are still two objects), \<open>protocol\<close> and \<open>href\<close> are the fields the code reads.
\<close>

record url =
  url_ref :: nat
  protocol :: string
  href :: string

text \<open>\<^verbatim>\<open>new Dataset(mimeType, url, data)\<close>: the triple of the data registry.\<close>

record 'd dataset =
  mimeType :: mimetype
  url :: url
  data :: 'd

text \<open>
  A transform is an async function \<^verbatim>\<open>(data: T) => Promise<V>\<close>. Its promise either
  resolves to a value or rejects with a reason; \<open>tid\<close> is the identity of the function
  object, by which the trace of a conversion names the transforms it has called.
\<close>

type_synonym reason = string

record ('a, 'b) transform =
  tid :: nat
  call :: "'a \<Rightarrow> reason + 'b"

text \<open>
  The registry holds \<^verbatim>\<open>Converter<any, any>\<close>: a transform of the registry receives
  whatever \<^verbatim>\<open>datas.get\<close> returns, \<open>None\<close> being \<^verbatim>\<open>undefined\<close>.
\<close>

type_synonym 'd hop_fn = "('d option, 'd) transform"

text \<open>
  \<^verbatim>\<open>Converter<T, V> = (mimeType: string) => Map<string, (data: T) => Promise<V>>\<close>
\<close>

type_synonym 't converter_fn = "mimetype \<Rightarrow> (mimetype \<times> 't) list"

definition composeConverters :: "'t converter_fn \<Rightarrow> 't converter_fn \<Rightarrow> 't converter_fn" where
  "composeConverters a b = (\<lambda>m. js_map (a m @ b m))"

definition emptyConverter :: "'t converter_fn" where
  "emptyConverter = (\<lambda>m. js_map [])"

definition composeManyConverters :: "'t converter_fn list \<Rightarrow> 't converter_fn" where
  "composeManyConverters cs = foldl composeConverters emptyConverter cs"

definition singleConverter :: "(mimetype \<Rightarrow> (mimetype \<times> 't) option) \<Rightarrow> 't converter_fn" where
  "singleConverter fn =
     (\<lambda>m. case fn m of None \<Rightarrow> js_map [] | Some possibleResult \<Rightarrow> js_map [possibleResult])"

definition seperateConverter :: "(mimetype \<Rightarrow> mimetype option) \<Rightarrow> 't \<Rightarrow> 't converter_fn" where
  "seperateConverter computeMimeType cv =
     singleConverter
       (\<lambda>m. case computeMimeType m of
              None \<Rightarrow> None
            | Some targetMimeType \<Rightarrow> Some (targetMimeType, cv))"

definition staticConverter :: "mimetype \<Rightarrow> mimetype \<Rightarrow> 't \<Rightarrow> 't converter_fn" where
  "staticConverter sourceMimeType targetMimeType cv =
     seperateConverter (\<lambda>m. if m = sourceMimeType then Some targetMimeType else None) cv"

section \<open>The resolver converter\<close>

datatype error = InconsistentSource | TypeError | HopFailed reason

text \<open>
  The arrow function handed to \<^verbatim>\<open>singleConverter\<close> by \<^verbatim>\<open>resolverURLConverter\<close>
  takes two parameters, \<^verbatim>\<open>(mimeType, url)\<close>. A parameter the caller does not pass
  is \<^verbatim>\<open>undefined\<close> (\<open>None\<close>), and reading \<^verbatim>\<open>url.protocol\<close> of it throws a
  \<^verbatim>\<open>TypeError\<close>. \<^verbatim>\<open>extractResolveMimeType\<close> is imported from a module that is
  not part of the sources, so it is a parameter. The transform of the edge ignores its
  argument and resolves to the URL object; it is a function object made by the call, whose
  identity plays no part and is \<open>0\<close> here.
\<close>

definition resolverURL_fn ::
  "(mimetype \<Rightarrow> mimetype option) \<Rightarrow> mimetype \<Rightarrow> url option
     \<Rightarrow> error + (mimetype \<times> ('a, url) transform) option" where
  "resolverURL_fn extractResolveMimeType m u =
     (case extractResolveMimeType m of
        None \<Rightarrow> Inr None
      | Some resMimeType \<Rightarrow>
          (case u of
             None \<Rightarrow> Inl TypeError
           | Some u' \<Rightarrow>
               (let isHTTP = (protocol u' = ''http:'');
                    isHTTPS = (protocol u' = ''https:'')
                in if isHTTP \<or> isHTTPS
                   then Inr (Some (URLMimeType resMimeType, \<lparr>tid = 0, call = (\<lambda>_. Inr u')\<rparr>))
                   else Inr None)))"

text \<open>
  The converter that \<^verbatim>\<open>singleConverter\<close> returns calls \<^verbatim>\<open>fn(mimeType)\<close>, with
  one argument; an exception of \<^verbatim>\<open>fn\<close> leaves the converter as it is.
\<close>

definition resolverURLConverter ::
  "(mimetype \<Rightarrow> mimetype option) \<Rightarrow> mimetype \<Rightarrow> error + (mimetype \<times> ('a, url) transform) list" where
  "resolverURLConverter extractResolveMimeType m =
     (case resolverURL_fn extractResolveMimeType m None of
        Inl e \<Rightarrow> Inl e
      | Inr possibleResult \<Rightarrow> Inr (singleConverter (\<lambda>_. possibleResult) m))"

section \<open>Graph reachability\<close>

type_synonym 't path = "(mimetype \<times> 't) list"

text \<open>
  The registry imports \<^verbatim>\<open>reachable\<close> and \<^verbatim>\<open>expandPath\<close> from the module
  \<^verbatim>\<open>./graph\<close>, which is not part of the sources. The definitions of this section
  follow the spec's description of the two functions (4.2 and 4.3). The state of the
  exploration is the map of paths, whose keys are the visited mimetypes, and the next
  frontier; an edge of a path is \<^verbatim>\<open>(fromMimeType, transformFn)\<close>.
\<close>

text \<open>
  Modelled from the spec: one edge of \<^verbatim>\<open>reachable\<close> (module \<^verbatim>\<open>./graph\<close>, missing).
  ``For each edge whose target mimetype is not yet visited, record path = parent path +
  this edge, mark visited, add to next frontier.''
\<close>

definition visit_edge ::
  "mimetype \<Rightarrow> 't path \<Rightarrow> ((mimetype \<times> 't path) list \<times> (mimetype \<times> 't path) list)
     \<Rightarrow> mimetype \<times> 't \<Rightarrow> ((mimetype \<times> 't path) list \<times> (mimetype \<times> 't path) list)" where
  "visit_edge m p st e =
     (if fst e \<in> fst ` set (fst st) then st
      else (fst st @ [(fst e, p @ [(m, snd e)])], snd st @ [(fst e, p @ [(m, snd e)])]))"

text \<open>
  Modelled from the spec: one mimetype of the frontier in \<^verbatim>\<open>reachable\<close> (module
  \<^verbatim>\<open>./graph\<close>, missing). ``For each mimetype in the frontier, query the composed
  converter for its outgoing edges.''
\<close>

definition expand_node ::
  "'t converter_fn \<Rightarrow> ((mimetype \<times> 't path) list \<times> (mimetype \<times> 't path) list)
     \<Rightarrow> mimetype \<times> 't path \<Rightarrow> ((mimetype \<times> 't path) list \<times> (mimetype \<times> 't path) list)" where
  "expand_node edges st n = foldl (visit_edge (fst n) (snd n)) st (edges (fst n))"

text \<open>
  Modelled from the spec: one round of \<^verbatim>\<open>reachable\<close> (module \<^verbatim>\<open>./graph\<close>, missing):
  the whole frontier is expanded, the mimetypes found form the next frontier.
\<close>

definition bfs_round ::
  "'t converter_fn \<Rightarrow> (mimetype \<times> 't path) list \<Rightarrow> (mimetype \<times> 't path) list
     \<Rightarrow> ((mimetype \<times> 't path) list \<times> (mimetype \<times> 't path) list)" where
  "bfs_round edges paths frontier = foldl (expand_node edges) (paths, []) frontier"

text \<open>
  Modelled from the spec: the loop of \<^verbatim>\<open>reachable\<close> (module \<^verbatim>\<open>./graph\<close>, missing).
  ``Repeat until frontier empty.'' Over a converter that keeps producing new mimetypes the
  loop never ends: its value is then \<open>None\<close>.
\<close>

partial_function (option) bfs ::
  "'t converter_fn \<Rightarrow> (mimetype \<times> 't path) list \<Rightarrow> (mimetype \<times> 't path) list
     \<Rightarrow> (mimetype \<times> 't path) list option" where
  "bfs edges paths frontier =
     (if frontier = [] then Some paths
      else bfs edges (fst (bfs_round edges paths frontier)) (snd (bfs_round edges paths frontier)))"

declare bfs.simps [code]

text \<open>
  Modelled from the spec: \<^verbatim>\<open>reachable\<close> (module \<^verbatim>\<open>./graph\<close>, missing). ``Frontier =
  starting mimetypes, each with an empty path and marked visited.''
\<close>

definition reachable :: "'t converter_fn \<Rightarrow> mimetype list \<Rightarrow> (mimetype \<times> 't path) list option" where
  "reachable edges initial =
     bfs edges (map (\<lambda>m. (m, [])) initial) (map (\<lambda>m. (m, [])) initial)"

text \<open>
  A step is a triple \<^verbatim>\<open>[initialMimeType, convert, resultMimeType]\<close>, as \<^verbatim>\<open>convert\<close>
  destructures what \<^verbatim>\<open>expandPath\<close> yields; \<open>None\<close> is \<^verbatim>\<open>undefined\<close>.
\<close>

type_synonym 't step = "mimetype option \<times> 't option \<times> mimetype"

text \<open>
  Modelled from the spec: the hops of \<^verbatim>\<open>expandPath\<close> (module \<^verbatim>\<open>./graph\<close>, missing).
  ``For each subsequent hop \<^verbatim>\<open>(fromMimeType, transform, toMimeType)\<close>'': a hop arrives
  where the next edge starts, the last one at the target.
\<close>

fun hops :: "'t path \<Rightarrow> mimetype \<Rightarrow> 't step list" where
  "hops [] target = []"
| "hops [(m, f)] target = [(Some m, Some f, target)]"
| "hops ((m, f) # (m', f') # rest) target = (Some m, Some f, m') # hops ((m', f') # rest) target"

text \<open>
  Modelled from the spec: the starting mimetype of a path in \<^verbatim>\<open>expandPath\<close> (module
  \<^verbatim>\<open>./graph\<close>, missing): where its first edge starts, or the target itself when the
  path is empty.
\<close>

definition path_start :: "'t path \<Rightarrow> mimetype \<Rightarrow> mimetype" where
  "path_start p target = (case p of [] \<Rightarrow> target | e # _ \<Rightarrow> fst e)"

text \<open>
  Modelled from the spec: \<^verbatim>\<open>expandPath\<close> (module \<^verbatim>\<open>./graph\<close>, missing). No path (an
  unreachable target) gives the empty sequence. Otherwise ``the conceptual path begins
  with a synthetic no-op first entry representing the already-available source dataset
  matching the path's starting mimetype'', which has no initial mimetype and no
  transform; the hops follow.
\<close>

definition expandPath :: "mimetype \<Rightarrow> 't path option \<Rightarrow> 't step list" where
  "expandPath target p =
     (case p of
        None \<Rightarrow> []
      | Some es \<Rightarrow> (None, None, path_start es target) # hops es target)"

section \<open>The converter registry\<close>

text \<open>
  A registered converter is a function object: \<open>cid\<close> is its identity, by which the
  \<^verbatim>\<open>Set\<close> of the registry compares, \<open>cfn\<close> is the function.
\<close>

record 'd converter =
  cid :: nat
  cfn :: "'d hop_fn converter_fn"

datatype change_type = added | removed

text \<open>
  The state of a \<^verbatim>\<open>ConverterRegistry\<close>: the set \<^verbatim>\<open>_converters\<close>, and what the
  signal \<^verbatim>\<open>_convertersChanged\<close> has emitted so far, oldest first.
\<close>

record 'd registry =
  converters :: "'d converter list"
  emitted :: "('d converter \<times> change_type) list"

definition new_registry :: "'d registry" where
  "new_registry = \<lparr>converters = [], emitted = []\<rparr>"

text \<open>
  The handle is a \<^verbatim>\<open>DisposableDelegate\<close> over a callback that closes over the
  converter: \<open>pending\<close> is that converter until the handle is disposed, \<open>None\<close> after.
\<close>

record 'd disposable =
  pending :: "'d converter option"

definition register :: "'d converter \<Rightarrow> 'd registry \<Rightarrow> 'd disposable \<times> 'd registry" where
  "register c r =
     (\<lparr>pending = Some c\<rparr>,
      r\<lparr>converters := set_add cid c (converters r),
        emitted := emitted r @ [(c, added)]\<rparr>)"

definition dispose :: "'d disposable \<Rightarrow> 'd registry \<Rightarrow> 'd disposable \<times> 'd registry" where
  "dispose h r =
     (case pending h of
        None \<Rightarrow> (h, r)
      | Some c \<Rightarrow>
          (h\<lparr>pending := None\<rparr>,
           r\<lparr>converters := set_delete cid c (converters r),
             emitted := emitted r @ [(c, removed)]\<rparr>))"

text \<open>
  \<^verbatim>\<open>_reachable\<close>: the converters of the set, composed in iteration order, explored
  from \<^verbatim>\<open>new Set(mimeTypes)\<close>. The exploration is the function \<^verbatim>\<open>reachable\<close>
  that the registry imports from \<^verbatim>\<open>./graph\<close>: \<open>registry_reachable_with\<close> takes it as
  a parameter, \<open>registry_reachable\<close> is the registry over the model of it above.
\<close>

definition registry_converter :: "'d registry \<Rightarrow> 'd hop_fn converter_fn" where
  "registry_converter r = composeManyConverters (map cfn (converters r))"

definition registry_reachable_with ::
  "('d hop_fn converter_fn \<Rightarrow> mimetype list \<Rightarrow> 'p) \<Rightarrow> 'd registry \<Rightarrow> mimetype list \<Rightarrow> 'p" where
  "registry_reachable_with graph_reachable r mimeTypes =
     graph_reachable (registry_converter r) (js_set id mimeTypes)"

definition registry_reachable ::
  "'d registry \<Rightarrow> mimetype list \<Rightarrow> (mimetype \<times> 'd hop_fn path) list option" where
  "registry_reachable = registry_reachable_with reachable"

definition listTargetMimeTypes :: "'d registry \<Rightarrow> mimetype list \<Rightarrow> mimetype list option" where
  "listTargetMimeTypes r sourceMimeTypes =
     map_option (\<lambda>paths. js_set id (map fst paths)) (registry_reachable r sourceMimeTypes)"

section \<open>Conversion\<close>

text \<open>
  What a consumer that drains the async generator of \<^verbatim>\<open>convert\<close> observes, in
  order: a dataset yielded (\<open>None\<close> is \<^verbatim>\<open>undefined\<close>, which \<^verbatim>\<open>find\<close> returns when
  nothing matches), or a transform called on an argument. The generator then either
  returns (\<open>None\<close>) or throws.
\<close>

datatype 'd event = Yield "'d dataset option" | Invoke nat "'d option"

type_synonym 'd run = "'d event list \<times> error option"

definition emit :: "'d event list \<Rightarrow> 'd run \<Rightarrow> 'd run" where
  "emit evs r = (evs @ fst r, snd r)"

text \<open>
  The body of the \<^verbatim>\<open>for\<close> loop of \<^verbatim>\<open>convert\<close>. \<^verbatim>\<open>!initialMimeType\<close> holds
  of \<^verbatim>\<open>undefined\<close> and of the empty string. Calling \<^verbatim>\<open>convert\<close> when it is
  \<^verbatim>\<open>undefined\<close> throws a \<^verbatim>\<open>TypeError\<close>.
\<close>

definition falsy :: "mimetype option \<Rightarrow> bool" where
  "falsy m = (case m of None \<Rightarrow> True | Some s \<Rightarrow> s = [])"

fun convert_loop ::
  "'d dataset list \<Rightarrow> url \<Rightarrow> (mimetype \<times> 'd) list \<Rightarrow> 'd hop_fn step list \<Rightarrow> 'd run" where
  "convert_loop sourceDatasets u datas [] = ([], None)"
| "convert_loop sourceDatasets u datas ((initialMimeType, cv, resultMimeType) # rest) =
     (if falsy initialMimeType
      then emit [Yield (find (\<lambda>d. mimeType d = resultMimeType) sourceDatasets)]
             (convert_loop sourceDatasets u datas rest)
      else (case cv of
              None \<Rightarrow> ([], Some TypeError)
            | Some f \<Rightarrow>
                (let arg = map_of datas (case initialMimeType of Some s \<Rightarrow> s | None \<Rightarrow> [])
                 in case call f arg of
                      Inl e \<Rightarrow> ([Invoke (tid f) arg], Some (HopFailed e))
                    | Inr v \<Rightarrow>
                        emit [Invoke (tid f) arg,
                              Yield (Some \<lparr>mimeType = resultMimeType, url = u, data = v\<rparr>)]
                          (convert_loop sourceDatasets u
                             (AList.update resultMimeType v datas) rest))))"

definition collect_urls :: "'d dataset list \<Rightarrow> url list" where
  "collect_urls sourceDatasets = foldl (\<lambda>urls d. set_add url_ref (url d) urls) [] sourceDatasets"

definition collect_datas :: "'d dataset list \<Rightarrow> (mimetype \<times> 'd) list" where
  "collect_datas sourceDatasets =
     foldl (\<lambda>datas d. AList.update (mimeType d) (data d) datas) [] sourceDatasets"

text \<open>
  \<^verbatim>\<open>convert\<close>, drained by its consumer. \<open>None\<close>: the exploration of the graph
  does not end, so the generator neither yields nor throws. \<open>convert_with\<close> takes the
  two functions of \<^verbatim>\<open>./graph\<close> as parameters; \<open>convert\<close> is the method over the
  models of them above.
\<close>

definition convert_with ::
  "('d hop_fn converter_fn \<Rightarrow> mimetype list \<Rightarrow> (mimetype \<times> 'd hop_fn path) list option)
     \<Rightarrow> (mimetype \<Rightarrow> 'd hop_fn path option \<Rightarrow> 'd hop_fn step list)
     \<Rightarrow> 'd registry \<Rightarrow> 'd dataset list \<Rightarrow> mimetype \<Rightarrow> 'd run option" where
  "convert_with graph_reachable graph_expandPath r sourceDatasets targetMimeType =
     (case collect_urls sourceDatasets of
        [u] \<Rightarrow>
          (case registry_reachable_with graph_reachable r (map fst (collect_datas sourceDatasets)) of
             None \<Rightarrow> None
           | Some paths \<Rightarrow>
               Some (convert_loop sourceDatasets u (collect_datas sourceDatasets)
                       (graph_expandPath targetMimeType (map_of paths targetMimeType))))
      | _ \<Rightarrow> Some ([], Some InconsistentSource))"

definition convert :: "'d registry \<Rightarrow> 'd dataset list \<Rightarrow> mimetype \<Rightarrow> 'd run option" where
  "convert = convert_with reachable expandPath"

section \<open>Paths of the mimetype graph\<close>

text \<open>
  \<open>is_path edges s p t\<close>: the edges \<open>p\<close>, each \<^verbatim>\<open>(fromMimeType, transformFn)\<close>, lead
  from \<open>s\<close> to \<open>t\<close>, every one of them an entry of the converter's map at its source.
  Its number of hops is \<open>length p\<close>.
\<close>

fun is_path :: "'t converter_fn \<Rightarrow> mimetype \<Rightarrow> 't path \<Rightarrow> mimetype \<Rightarrow> bool" where
  "is_path edges s [] t = (s = t)"
| "is_path edges s (e # rest) t =
     (fst e = s \<and> (path_start rest t, snd e) \<in> set (edges s) \<and> is_path edges (path_start rest t) rest t)"

text \<open>The mimetypes that some path reaches from a starting mimetype of \<open>S\<close>.\<close>

definition reach_set :: "'t converter_fn \<Rightarrow> mimetype set \<Rightarrow> mimetype set" where
  "reach_set edges S = {v. \<exists>s \<in> S. \<exists>q. is_path edges s q v}"

text \<open>
  The state of the exploration at the start of round \<open>k\<close>: the keys of \<open>P\<close> are visited,
  the frontier \<open>F\<close> holds the entries whose path has \<open>k\<close> hops, every recorded path is a
  path of the graph and no path is shorter, the entries before the frontier are expanded,
  and every mimetype within \<open>k\<close> hops is visited.
\<close>

definition bfs_inv ::
  "'t converter_fn \<Rightarrow> mimetype set \<Rightarrow> nat \<Rightarrow> (mimetype \<times> 't path) list \<Rightarrow> (mimetype \<times> 't path) list \<Rightarrow> bool" where
  "bfs_inv edges S k P F \<longleftrightarrow>
     distinct (map fst P)
   \<and> set F \<subseteq> set P
   \<and> (\<forall>v p. (v, p) \<in> set P \<longrightarrow> length p \<le> k)
   \<and> (\<forall>v p. (v, p) \<in> set P \<longrightarrow> length p = k \<longrightarrow> (v, p) \<in> set F)
   \<and> (\<forall>v p. (v, p) \<in> set F \<longrightarrow> length p = k)
   \<and> (\<forall>v p. (v, p) \<in> set P \<longrightarrow> (\<exists>s \<in> S. is_path edges s p v))
   \<and> (\<forall>v p t f. (v, p) \<in> set P \<longrightarrow> length p < k \<longrightarrow> (t, f) \<in> set (edges v) \<longrightarrow> t \<in> fst ` set P)
   \<and> (\<forall>s q v. s \<in> S \<longrightarrow> is_path edges s q v \<longrightarrow> length q \<le> k \<longrightarrow> v \<in> fst ` set P)
   \<and> (\<forall>v p s q. (v, p) \<in> set P \<longrightarrow> s \<in> S \<longrightarrow> is_path edges s q v \<longrightarrow> length p \<le> length q)"

text \<open>
  The local variable \<^verbatim>\<open>datas\<close> of \<^verbatim>\<open>convert\<close> after the loop has run over the
  given steps (up to the step that throws, if one does).
\<close>

fun datas_after :: "(mimetype \<times> 'd) list \<Rightarrow> 'd hop_fn step list \<Rightarrow> (mimetype \<times> 'd) list" where
  "datas_after datas [] = datas"
| "datas_after datas ((initialMimeType, cv, resultMimeType) # rest) =
     (if falsy initialMimeType then datas_after datas rest
      else (case cv of
              None \<Rightarrow> datas
            | Some f \<Rightarrow>
                (case call f (map_of datas (case initialMimeType of Some s \<Rightarrow> s | None \<Rightarrow> [])) of
                   Inl e \<Rightarrow> datas
                 | Inr v \<Rightarrow> datas_after (AList.update resultMimeType v datas) rest)))"

section \<open>Sample inputs\<close>

text \<open>
  A dataset of comma-separated values, transforms that resolve or reject whatever they
  are given, a converter and the registry in which it has been registered once, and three
  more registries: a chain of three converters whose second transform rejects, a triangle
  with a direct edge beside a path of two hops, and a registry whose only converter wraps
  every mimetype into the URL mimetype of it.
\<close>

definition sample_url :: url where
  "sample_url = \<lparr>url_ref = 1, protocol = ''http:'', href = ''http://example.org/x.csv''\<rparr>"

definition sample_csv :: "string dataset" where
  "sample_csv = \<lparr>mimeType = ''text/csv'', url = sample_url, data = ''1,2''\<rparr>"

definition resolving :: "nat \<Rightarrow> string \<Rightarrow> string hop_fn" where
  "resolving i v = \<lparr>tid = i, call = (\<lambda>_. Inr v)\<rparr>"

definition rejecting :: "nat \<Rightarrow> reason \<Rightarrow> string hop_fn" where
  "rejecting i e = \<lparr>tid = i, call = (\<lambda>_. Inl e)\<rparr>"

definition csv_to_html :: "string converter" where
  "csv_to_html = \<lparr>cid = 3, cfn = staticConverter ''text/csv'' ''text/html'' (resolving 3 ''<table/>'')\<rparr>"

definition registered_once :: "string registry" where
  "registered_once = snd (register csv_to_html new_registry)"

definition chain_registry :: "string registry" where
  "chain_registry =
     \<lparr>converters =
        [\<lparr>cid = 1, cfn = staticConverter ''text/csv'' ''application/json'' (resolving 1 ''[1,2]'')\<rparr>,
         \<lparr>cid = 2, cfn = staticConverter ''application/json'' ''text/markdown'' (rejecting 2 ''no table'')\<rparr>,
         \<lparr>cid = 3, cfn = staticConverter ''text/markdown'' ''text/html'' (resolving 3 ''<p/>'')\<rparr>],
      emitted = []\<rparr>"

definition triangle_registry :: "string registry" where
  "triangle_registry =
     \<lparr>converters =
        [\<lparr>cid = 1, cfn = staticConverter ''text/csv'' ''application/json'' (resolving 1 ''[1,2]'')\<rparr>,
         \<lparr>cid = 2, cfn = staticConverter ''application/json'' ''text/html'' (resolving 2 ''<ol/>'')\<rparr>,
         \<lparr>cid = 3, cfn = staticConverter ''text/csv'' ''text/html'' (resolving 3 ''<table/>'')\<rparr>],
      emitted = []\<rparr>"

definition wrapping_registry :: "string registry" where
  "wrapping_registry =
     \<lparr>converters =
        [\<lparr>cid = 1, cfn = seperateConverter (\<lambda>m. Some (URLMimeType m)) (resolving 1 ''http://example.org/x.csv'')\<rparr>],
      emitted = []\<rparr>"

text \<open>
  The same chain and the same triangle, starting at the empty string as mimetype, and a
  dataset of that mimetype.
\<close>

definition sample_blank :: "string dataset" where
  "sample_blank = \<lparr>mimeType = '''', url = sample_url, data = ''1,2''\<rparr>"

definition blank_chain_registry :: "string registry" where
  "blank_chain_registry =
     \<lparr>converters =
        [\<lparr>cid = 1, cfn = staticConverter '''' ''application/json'' (resolving 1 ''[1,2]'')\<rparr>,
         \<lparr>cid = 2, cfn = staticConverter ''application/json'' ''text/markdown'' (rejecting 2 ''no table'')\<rparr>,
         \<lparr>cid = 3, cfn = staticConverter ''text/markdown'' ''text/html'' (resolving 3 ''<p/>'')\<rparr>],
      emitted = []\<rparr>"

definition blank_triangle_registry :: "string registry" where
  "blank_triangle_registry =
     \<lparr>converters =
        [\<lparr>cid = 1, cfn = staticConverter '''' ''application/json'' (resolving 1 ''[1,2]'')\<rparr>,
         \<lparr>cid = 2, cfn = staticConverter ''application/json'' ''text/html'' (resolving 2 ''<ol/>'')\<rparr>,
         \<lparr>cid = 3, cfn = staticConverter '''' ''text/html'' (resolving 3 ''<table/>'')\<rparr>],
      emitted = []\<rparr>"

section \<open>Sets and maps\<close>

lemma registry_reachable_unfold:
  "registry_reachable r mimeTypes = reachable (registry_converter r) (js_set id mimeTypes)"
  by (simp add: registry_reachable_def registry_reachable_with_def)

lemma convert_unfold:
  "convert r sourceDatasets targetMimeType =
     (case collect_urls sourceDatasets of
        [u] \<Rightarrow>
          (case registry_reachable r (map fst (collect_datas sourceDatasets)) of
             None \<Rightarrow> None
           | Some paths \<Rightarrow>
               Some (convert_loop sourceDatasets u (collect_datas sourceDatasets)
                       (expandPath targetMimeType (map_of paths targetMimeType))))
      | _ \<Rightarrow> Some ([], Some InconsistentSource))"
  unfolding convert_def convert_with_def registry_reachable_def by (rule refl)

lemma set_add_idents: "ident ` set (set_add ident x xs) = insert (ident x) (ident ` set xs)"
  by (auto simp: set_add_def)

lemma set_add_distinct: "distinct (map ident xs) \<Longrightarrow> distinct (map ident (set_add ident x xs))"
  by (auto simp: set_add_def)

lemma foldl_set_add_idents:
  "ident ` set (foldl (\<lambda>acc y. set_add ident (g y) acc) acc ys) = ident ` set acc \<union> ident ` g ` set ys"
  by (induction ys arbitrary: acc) (auto simp: set_add_idents)

lemma foldl_set_add_distinct:
  "distinct (map ident acc) \<Longrightarrow> distinct (map ident (foldl (\<lambda>acc y. set_add ident (g y) acc) acc ys))"
  by (induction ys arbitrary: acc) (auto simp: set_add_distinct)

lemma length_collect_urls: "length (collect_urls ds) = card (url_ref ` url ` set ds)"
proof -
  have d: "distinct (map url_ref (collect_urls ds))"
    unfolding collect_urls_def by (rule foldl_set_add_distinct) simp
  have s: "url_ref ` set (collect_urls ds) = url_ref ` url ` set ds"
    unfolding collect_urls_def by (simp add: foldl_set_add_idents)
  have "length (collect_urls ds) = length (map url_ref (collect_urls ds))" by simp
  also have "\<dots> = card (set (map url_ref (collect_urls ds)))"
    using d by (rule distinct_card [symmetric])
  finally show ?thesis using s by simp
qed

lemma collect_urls_single: "(\<exists>u. collect_urls ds = [u]) \<longleftrightarrow> card (url_ref ` url ` set ds) = 1"
  using length_collect_urls [of ds] by (auto simp: length_Suc_conv)

section \<open>One round of the exploration\<close>

lemma path_start_simps [simp]: "path_start [] t = t" "path_start (e # es) t = fst e"
  by (simp_all add: path_start_def)

lemma path_start_append [simp]: "path_start (q @ [(m, f)]) t = path_start q m"
  by (cases q) (simp_all add: path_start_def)

lemma is_path_snoc:
  "is_path edges s (q @ [(m, f)]) t \<longleftrightarrow> is_path edges s q m \<and> (t, f) \<in> set (edges m)"
proof (induction q arbitrary: s)
  case Nil
  show ?case by (auto simp: path_start_def)
next
  case (Cons e q)
  show ?case by (auto simp: Cons.IH)
qed

lemma visit_edges_fold:
  "\<exists>N. foldl (visit_edge m p) st es = (fst st @ N, snd st @ N)
     \<and> (\<forall>x \<in> set N. fst x \<notin> fst ` set (fst st) \<and> (\<exists>f. (fst x, f) \<in> set es \<and> snd x = p @ [(m, f)]))
     \<and> fst ` set es \<subseteq> fst ` set (fst st @ N)
     \<and> (distinct (map fst (fst st)) \<longrightarrow> distinct (map fst (fst st @ N)))"
proof (induction es arbitrary: st)
  case Nil
  show ?case by (rule exI [of _ "[]"]) simp
next
  case (Cons e es)
  let ?st' = "visit_edge m p st e"
  from Cons.IH [of ?st'] obtain N where
    N: "foldl (visit_edge m p) ?st' es = (fst ?st' @ N, snd ?st' @ N)"
    and new: "\<forall>x \<in> set N. fst x \<notin> fst ` set (fst ?st') \<and> (\<exists>f. (fst x, f) \<in> set es \<and> snd x = p @ [(m, f)])"
    and cov: "fst ` set es \<subseteq> fst ` set (fst ?st' @ N)"
    and dis: "distinct (map fst (fst ?st')) \<longrightarrow> distinct (map fst (fst ?st' @ N))"
    by blast
  have step: "foldl (visit_edge m p) st (e # es) = (fst ?st' @ N, snd ?st' @ N)"
    using N by simp
  show ?case
  proof (cases "fst e \<in> fst ` set (fst st)")
    case True
    then have eq: "?st' = st" by (simp add: visit_edge_def)
    have "foldl (visit_edge m p) st (e # es) = (fst st @ N, snd st @ N)"
      using step by (simp only: eq)
    moreover have "\<forall>x \<in> set N. fst x \<notin> fst ` set (fst st) \<and> (\<exists>f. (fst x, f) \<in> set (e # es) \<and> snd x = p @ [(m, f)])"
      using new by (simp only: eq) auto
    moreover have "fst ` set (e # es) \<subseteq> fst ` set (fst st @ N)"
      using cov True by (simp only: eq) auto
    moreover have "distinct (map fst (fst st)) \<longrightarrow> distinct (map fst (fst st @ N))"
      using dis by (simp only: eq)
    ultimately show ?thesis by blast
  next
    case False
    let ?x = "(fst e, p @ [(m, snd e)])"
    from False have eq: "?st' = (fst st @ [?x], snd st @ [?x])" by (simp add: visit_edge_def)
    have "foldl (visit_edge m p) st (e # es) = (fst st @ (?x # N), snd st @ (?x # N))"
      using step by (simp add: eq)
    moreover have "\<forall>x \<in> set (?x # N). fst x \<notin> fst ` set (fst st) \<and> (\<exists>f. (fst x, f) \<in> set (e # es) \<and> snd x = p @ [(m, f)])"
    proof
      fix x assume "x \<in> set (?x # N)"
      then consider "x = ?x" | "x \<in> set N" by auto
      then show "fst x \<notin> fst ` set (fst st) \<and> (\<exists>f. (fst x, f) \<in> set (e # es) \<and> snd x = p @ [(m, f)])"
      proof cases
        case 1
        then show ?thesis using False by (auto intro: exI [of _ "snd e"])
      next
        case 2
        with new have "fst x \<notin> fst ` set (fst ?st') \<and> (\<exists>f. (fst x, f) \<in> set es \<and> snd x = p @ [(m, f)])"
          by blast
        then show ?thesis by (auto simp: eq)
      qed
    qed
    moreover have "fst ` set (e # es) \<subseteq> fst ` set (fst st @ (?x # N))"
      using cov by (auto simp: eq)
    moreover have "distinct (map fst (fst st)) \<longrightarrow> distinct (map fst (fst st @ (?x # N)))"
      using dis False by (auto simp: eq)
    ultimately show ?thesis by blast
  qed
qed


lemma expand_nodes_fold:
  "\<exists>N. foldl (expand_node edges) st F = (fst st @ N, snd st @ N)
     \<and> (\<forall>x \<in> set N. fst x \<notin> fst ` set (fst st)
            \<and> (\<exists>n \<in> set F. \<exists>f. (fst x, f) \<in> set (edges (fst n)) \<and> snd x = snd n @ [(fst n, f)]))
     \<and> (\<forall>n \<in> set F. fst ` set (edges (fst n)) \<subseteq> fst ` set (fst st @ N))
     \<and> (distinct (map fst (fst st)) \<longrightarrow> distinct (map fst (fst st @ N)))"
proof (induction F arbitrary: st)
  case Nil
  show ?case by (rule exI [of _ "[]"]) simp
next
  case (Cons n F)
  let ?st' = "expand_node edges st n"
  from visit_edges_fold [of "fst n" "snd n" st "edges (fst n)"] obtain M where
    M: "?st' = (fst st @ M, snd st @ M)"
    and newM: "\<forall>x \<in> set M. fst x \<notin> fst ` set (fst st)
                 \<and> (\<exists>f. (fst x, f) \<in> set (edges (fst n)) \<and> snd x = snd n @ [(fst n, f)])"
    and covM: "fst ` set (edges (fst n)) \<subseteq> fst ` set (fst st @ M)"
    and disM: "distinct (map fst (fst st)) \<longrightarrow> distinct (map fst (fst st @ M))"
    unfolding expand_node_def by blast
  from Cons.IH [of ?st'] obtain N where
    N: "foldl (expand_node edges) ?st' F = (fst ?st' @ N, snd ?st' @ N)"
    and newN: "\<forall>x \<in> set N. fst x \<notin> fst ` set (fst ?st')
                 \<and> (\<exists>n \<in> set F. \<exists>f. (fst x, f) \<in> set (edges (fst n)) \<and> snd x = snd n @ [(fst n, f)])"
    and covN: "\<forall>n \<in> set F. fst ` set (edges (fst n)) \<subseteq> fst ` set (fst ?st' @ N)"
    and disN: "distinct (map fst (fst ?st')) \<longrightarrow> distinct (map fst (fst ?st' @ N))"
    by blast
  have "foldl (expand_node edges) st (n # F) = (fst st @ (M @ N), snd st @ (M @ N))"
    using N by (simp add: M)
  moreover have "\<forall>x \<in> set (M @ N). fst x \<notin> fst ` set (fst st)
      \<and> (\<exists>n' \<in> set (n # F). \<exists>f. (fst x, f) \<in> set (edges (fst n')) \<and> snd x = snd n' @ [(fst n', f)])"
  proof
    fix x assume "x \<in> set (M @ N)"
    then consider "x \<in> set M" | "x \<in> set N" by auto
    then show "fst x \<notin> fst ` set (fst st)
      \<and> (\<exists>n' \<in> set (n # F). \<exists>f. (fst x, f) \<in> set (edges (fst n')) \<and> snd x = snd n' @ [(fst n', f)])"
    proof cases
      case 1
      with newM show ?thesis by auto
    next
      case 2
      with newN have "fst x \<notin> fst ` set (fst ?st')
         \<and> (\<exists>n \<in> set F. \<exists>f. (fst x, f) \<in> set (edges (fst n)) \<and> snd x = snd n @ [(fst n, f)])"
        by blast
      then show ?thesis by (auto simp: M)
    qed
  qed
  moreover have "\<forall>n' \<in> set (n # F). fst ` set (edges (fst n')) \<subseteq> fst ` set (fst st @ (M @ N))"
    using covM covN by (auto simp: M)
  moreover have "distinct (map fst (fst st)) \<longrightarrow> distinct (map fst (fst st @ (M @ N)))"
    using disM disN by (simp add: M)
  ultimately show ?case by blast
qed

lemma bfs_round_shape:
  obtains N where "bfs_round edges P F = (P @ N, N)"
    and "\<And>t q. (t, q) \<in> set N \<Longrightarrow> t \<notin> fst ` set P"
    and "\<And>t q. (t, q) \<in> set N \<Longrightarrow> \<exists>m p f. (m, p) \<in> set F \<and> (t, f) \<in> set (edges m) \<and> q = p @ [(m, f)]"
    and "\<And>m p t f. (m, p) \<in> set F \<Longrightarrow> (t, f) \<in> set (edges m) \<Longrightarrow> t \<in> fst ` set (P @ N)"
    and "distinct (map fst P) \<Longrightarrow> distinct (map fst (P @ N))"
proof -
  from expand_nodes_fold [of edges "(P, [])" F] obtain N where
    N: "bfs_round edges P F = (P @ N, N)"
    and new: "\<forall>x \<in> set N. fst x \<notin> fst ` set P
            \<and> (\<exists>n \<in> set F. \<exists>f. (fst x, f) \<in> set (edges (fst n)) \<and> snd x = snd n @ [(fst n, f)])"
    and cov: "\<forall>n \<in> set F. fst ` set (edges (fst n)) \<subseteq> fst ` set (P @ N)"
    and dis: "distinct (map fst P) \<longrightarrow> distinct (map fst (P @ N))"
    unfolding bfs_round_def by auto
  show thesis
  proof (rule that [of N])
    show "bfs_round edges P F = (P @ N, N)" by (rule N)
    show "t \<notin> fst ` set P" if "(t, q) \<in> set N" for t q
      using new that by force
    show "\<exists>m p f. (m, p) \<in> set F \<and> (t, f) \<in> set (edges m) \<and> q = p @ [(m, f)]" if "(t, q) \<in> set N" for t q
    proof -
      from new that obtain n f where "n \<in> set F" "(t, f) \<in> set (edges (fst n))" "q = snd n @ [(fst n, f)]"
        by force
      then show ?thesis by (intro exI [of _ "fst n"] exI [of _ "snd n"] exI [of _ f]) simp
    qed
    show "t \<in> fst ` set (P @ N)" if "(m, p) \<in> set F" "(t, f) \<in> set (edges m)" for m p t f
      using cov that by force
    show "distinct (map fst (P @ N))" if "distinct (map fst P)"
      using dis that by blast
  qed
qed


lemma bfs_inv_initial:
  assumes "distinct initial"
  shows "bfs_inv edges (set initial) 0 (map (\<lambda>m. (m, [])) initial) (map (\<lambda>m. (m, [])) initial)"
  unfolding bfs_inv_def using assms
  by (auto simp: comp_def image_iff)

lemma bfs_inv_step:
  assumes inv: "bfs_inv edges S k P F"
  shows "bfs_inv edges S (Suc k) (fst (bfs_round edges P F)) (snd (bfs_round edges P F))"
proof -
  from inv have dis: "distinct (map fst P)"
    and FP: "set F \<subseteq> set P"
    and len: "\<And>v p. (v, p) \<in> set P \<Longrightarrow> length p \<le> k"
    and front: "\<And>v p. (v, p) \<in> set P \<Longrightarrow> length p = k \<Longrightarrow> (v, p) \<in> set F"
    and flen: "\<And>v p. (v, p) \<in> set F \<Longrightarrow> length p = k"
    and valid: "\<And>v p. (v, p) \<in> set P \<Longrightarrow> \<exists>s \<in> S. is_path edges s p v"
    and closed: "\<And>v p t f. (v, p) \<in> set P \<Longrightarrow> length p < k \<Longrightarrow> (t, f) \<in> set (edges v) \<Longrightarrow> t \<in> fst ` set P"
    and complete: "\<And>s q v. s \<in> S \<Longrightarrow> is_path edges s q v \<Longrightarrow> length q \<le> k \<Longrightarrow> v \<in> fst ` set P"
    and minimal: "\<And>v p s q. (v, p) \<in> set P \<Longrightarrow> s \<in> S \<Longrightarrow> is_path edges s q v \<Longrightarrow> length p \<le> length q"
    unfolding bfs_inv_def by blast+
  obtain N where round: "bfs_round edges P F = (P @ N, N)"
    and fresh: "\<And>t q. (t, q) \<in> set N \<Longrightarrow> t \<notin> fst ` set P"
    and origin: "\<And>t q. (t, q) \<in> set N \<Longrightarrow> \<exists>m p f. (m, p) \<in> set F \<and> (t, f) \<in> set (edges m) \<and> q = p @ [(m, f)]"
    and cover: "\<And>m p t f. (m, p) \<in> set F \<Longrightarrow> (t, f) \<in> set (edges m) \<Longrightarrow> t \<in> fst ` set (P @ N)"
    and dis': "distinct (map fst P) \<Longrightarrow> distinct (map fst (P @ N))"
    by (rule bfs_round_shape [of edges P F]) blast
  have nlen: "length q = Suc k" if "(t, q) \<in> set N" for t q
    using origin [OF that] flen by auto
  have keys_mono: "t \<in> fst ` set (P @ N)" if "t \<in> fst ` set P" for t
    using that by auto
  have 1: "distinct (map fst (P @ N))" using dis dis' by blast
  have 2: "set N \<subseteq> set (P @ N)" by auto
  have 3: "length p \<le> Suc k" if "(v, p) \<in> set (P @ N)" for v p
    using that len nlen by fastforce
  have 4: "(v, p) \<in> set N" if "(v, p) \<in> set (P @ N)" "length p = Suc k" for v p
    using that len by fastforce
  have 5: "length p = Suc k" if "(v, p) \<in> set N" for v p
    using that by (rule nlen)
  have 6: "\<exists>s \<in> S. is_path edges s p v" if "(v, p) \<in> set (P @ N)" for v p
  proof (cases "(v, p) \<in> set P")
    case True
    then show ?thesis by (rule valid)
  next
    case False
    with that have "(v, p) \<in> set N" by simp
    from origin [OF this] obtain m p0 f where m: "(m, p0) \<in> set F" "(v, f) \<in> set (edges m)" "p = p0 @ [(m, f)]"
      by blast
    from m(1) FP have "(m, p0) \<in> set P" by blast
    from valid [OF this] obtain s where "s \<in> S" "is_path edges s p0 m" by blast
    with m show ?thesis by (auto simp: is_path_snoc)
  qed
  have 7: "t \<in> fst ` set (P @ N)"
    if "(v, p) \<in> set (P @ N)" "length p < Suc k" "(t, f) \<in> set (edges v)" for v p t f
  proof -
    from that(1,2) nlen have vp: "(v, p) \<in> set P" by fastforce
    show ?thesis
    proof (cases "length p < k")
      case True
      from closed [OF vp True that(3)] show ?thesis by (rule keys_mono)
    next
      case False
      with that(2) have "length p = k" by simp
      from front [OF vp this] that(3) show ?thesis by (rule cover)
    qed
  qed
  have 8: "v \<in> fst ` set (P @ N)" if "s \<in> S" "is_path edges s q v" "length q \<le> Suc k" for s q v
  proof (cases "length q \<le> k")
    case True
    from complete [OF that(1,2) True] show ?thesis by (rule keys_mono)
  next
    case False
    with that(3) have lq: "length q = Suc k" by simp
    then obtain q0 e where q: "q = q0 @ [e]" by (cases q rule: rev_cases) auto
    obtain m f where e: "e = (m, f)" by (cases e)
    from that(2) have p0: "is_path edges s q0 m" and edge: "(v, f) \<in> set (edges m)"
      by (simp_all add: q e is_path_snoc)
    from lq have "length q0 \<le> k" by (simp add: q)
    from complete [OF that(1) p0 this] obtain p where mp: "(m, p) \<in> set P" by auto
    show ?thesis
    proof (cases "length p < k")
      case True
      from closed [OF mp True edge] show ?thesis by (rule keys_mono)
    next
      case False
      with len [OF mp] have "length p = k" by simp
      from front [OF mp this] edge show ?thesis by (rule cover)
    qed
  qed
  have 9: "length p \<le> length q" if "(v, p) \<in> set (P @ N)" "s \<in> S" "is_path edges s q v" for v p s q
  proof (cases "(v, p) \<in> set P")
    case True
    from minimal [OF True that(2,3)] show ?thesis .
  next
    case False
    with that(1) have vN: "(v, p) \<in> set N" by simp
    show ?thesis
    proof (rule ccontr)
      assume "\<not> length p \<le> length q"
      with nlen [OF vN] have "length q \<le> k" by simp
      from complete [OF that(2,3) this] fresh [OF vN] show False by blast
    qed
  qed
  show ?thesis
    unfolding bfs_inv_def round fst_conv snd_conv
    using 1 2 3 4 5 6 7 8 9 by blast
qed


lemma bfs_inv_result:
  assumes run: "bfs edges P F = Some R" and inv: "bfs_inv edges S k P F"
  shows "\<exists>k'. bfs_inv edges S k' R []"
proof -
  have "\<forall>k. bfs_inv edges S k P F \<longrightarrow> (\<exists>k'. bfs_inv edges S k' R [])"
  proof (rule bfs.raw_induct
      [where P = "\<lambda>edges P F R. \<forall>k. bfs_inv edges S k P F \<longrightarrow> (\<exists>k'. bfs_inv edges S k' R [])",
        OF _ run])
    fix f :: "'a converter_fn \<Rightarrow> (mimetype \<times> 'a path) list \<Rightarrow> (mimetype \<times> 'a path) list
                \<Rightarrow> (mimetype \<times> 'a path) list option"
    fix edges P F R
    assume IH: "\<And>edges P F R. f edges P F = Some R
                  \<Longrightarrow> \<forall>k. bfs_inv edges S k P F \<longrightarrow> (\<exists>k'. bfs_inv edges S k' R [])"
    assume eq: "(if F = [] then Some P
                 else f edges (fst (bfs_round edges P F)) (snd (bfs_round edges P F))) = Some R"
    show "\<forall>k. bfs_inv edges S k P F \<longrightarrow> (\<exists>k'. bfs_inv edges S k' R [])"
    proof (intro allI impI)
      fix k assume inv: "bfs_inv edges S k P F"
      show "\<exists>k'. bfs_inv edges S k' R []"
      proof (cases "F = []")
        case True
        with eq inv show ?thesis by auto
      next
        case False
        with eq have "f edges (fst (bfs_round edges P F)) (snd (bfs_round edges P F)) = Some R"
          by simp
        from IH [OF this] bfs_inv_step [OF inv] show ?thesis by blast
      qed
    qed
  qed
  with inv show ?thesis by blast
qed

lemma bfs_terminates:
  assumes fin: "finite (reach_set edges S)"
  shows "bfs_inv edges S k P F \<Longrightarrow> \<exists>R. bfs edges P F = Some R"
proof (induction "card (reach_set edges S - fst ` set P)" arbitrary: k P F rule: less_induct)
  case less
  note inv = less.prems
  show ?case
  proof (cases "F = []")
    case True
    then show ?thesis by (simp add: bfs.simps)
  next
    case False
    obtain N where round: "bfs_round edges P F = (P @ N, N)"
      and fresh: "\<And>t q. (t, q) \<in> set N \<Longrightarrow> t \<notin> fst ` set P"
      by (rule bfs_round_shape [of edges P F]) blast
    from bfs_inv_step [OF inv] have inv': "bfs_inv edges S (Suc k) (P @ N) N"
      by (simp add: round)
    have unfold: "bfs edges P F = bfs edges (P @ N) N"
      using False by (subst bfs.simps) (simp add: round)
    show ?thesis
    proof (cases "N = []")
      case True
      then show ?thesis unfolding unfold by (simp add: bfs.simps)
    next
      case False
      then obtain t q where tq: "(t, q) \<in> set N" by (cases N) auto
      from inv' have "\<exists>s \<in> S. is_path edges s q t"
        unfolding bfs_inv_def using tq by auto
      then have "t \<in> reach_set edges S" by (auto simp: reach_set_def)
      moreover have "t \<notin> fst ` set P" using tq by (rule fresh)
      moreover have "t \<in> fst ` set (P @ N)" using tq by force
      ultimately have "reach_set edges S - fst ` set (P @ N) \<subset> reach_set edges S - fst ` set P"
        by auto
      with fin have "card (reach_set edges S - fst ` set (P @ N)) < card (reach_set edges S - fst ` set P)"
        by (intro psubset_card_mono) auto
      from less.hyps [OF this inv'] show ?thesis unfolding unfold .
    qed
  qed
qed

section \<open>The inconsistent-source check\<close>

lemma convert_with_inconsistent:
  "card (url_ref ` url ` set ds) \<noteq> 1
     \<Longrightarrow> convert_with graph_reachable graph_expandPath r ds t = Some ([], Some InconsistentSource)"
  using collect_urls_single [of ds]
  by (auto simp: convert_with_def split: list.splits)

lemma convert_inconsistent:
  "card (url_ref ` url ` set ds) \<noteq> 1 \<Longrightarrow> convert r ds t = Some ([], Some InconsistentSource)"
  unfolding convert_def by (rule convert_with_inconsistent)

lemma emit_outcome: "snd (emit evs r) = snd r" by (simp add: emit_def)

lemma convert_loop_not_inconsistent: "snd (convert_loop ds u datas steps) \<noteq> Some InconsistentSource"
  by (induction ds u datas steps rule: convert_loop.induct)
     (auto simp: emit_outcome Let_def split: option.splits sum.splits)

section \<open>What the exploration returns\<close>

lemma js_set_id_set: "set (js_set id xs) = set xs"
  using foldl_set_add_idents [of id id "[]" xs] by (simp add: js_set_def)

lemma js_set_id_distinct: "distinct (js_set id xs)"
  using foldl_set_add_distinct [of id "[]" id xs] by (simp add: js_set_def)

lemma reachable_inv:
  assumes "reachable edges initial = Some R" and "distinct initial"
  shows "\<exists>k. bfs_inv edges (set initial) k R []"
  using bfs_inv_result [OF assms(1) [unfolded reachable_def] bfs_inv_initial [OF assms(2)]] .

lemma reachable_terminates:
  assumes "finite (reach_set edges (set initial))" and "distinct initial"
  shows "\<exists>R. reachable edges initial = Some R"
  unfolding reachable_def
  using bfs_terminates [OF assms(1) bfs_inv_initial [OF assms(2)]] .

lemma final_complete:
  assumes inv: "bfs_inv edges S k R []" and s: "s \<in> S"
  shows "is_path edges s q v \<Longrightarrow> v \<in> fst ` set R"
proof (induction q arbitrary: v rule: rev_induct)
  case Nil
  from inv have "\<And>s q v. s \<in> S \<Longrightarrow> is_path edges s q v \<Longrightarrow> length q \<le> k \<Longrightarrow> v \<in> fst ` set R"
    unfolding bfs_inv_def by blast
  from this [OF s Nil] show ?case by simp
next
  case (snoc e q)
  obtain m f where e: "e = (m, f)" by (cases e)
  from snoc.prems have q: "is_path edges s q m" and edge: "(v, f) \<in> set (edges m)"
    by (simp_all add: e is_path_snoc)
  from snoc.IH [OF q] obtain p where mp: "(m, p) \<in> set R" by auto
  from inv have len: "length p \<le> k" and notfront: "length p \<noteq> k"
    using mp unfolding bfs_inv_def by auto
  from inv have "\<And>v p t f. (v, p) \<in> set R \<Longrightarrow> length p < k \<Longrightarrow> (t, f) \<in> set (edges v) \<Longrightarrow> t \<in> fst ` set R"
    unfolding bfs_inv_def by blast
  from this [OF mp _ edge] len notfront show ?case by simp
qed

lemma reachable_shortest:
  assumes run: "reachable edges initial = Some R" and dis: "distinct initial"
    and p: "map_of R t = Some p"
  shows "(\<exists>s \<in> set initial. is_path edges s p t)"
    and "\<And>s q. s \<in> set initial \<Longrightarrow> is_path edges s q t \<Longrightarrow> length p \<le> length q"
proof -
  from reachable_inv [OF run dis] obtain k where inv: "bfs_inv edges (set initial) k R []" ..
  from p have tp: "(t, p) \<in> set R" by (rule map_of_SomeD)
  from inv tp show "\<exists>s \<in> set initial. is_path edges s p t"
    unfolding bfs_inv_def by blast
  fix s q assume "s \<in> set initial" "is_path edges s q t"
  with inv tp show "length p \<le> length q"
    unfolding bfs_inv_def by blast
qed

lemma reachable_complete:
  assumes run: "reachable edges initial = Some R" and dis: "distinct initial"
    and s: "s \<in> set initial" and q: "is_path edges s q t"
  shows "\<exists>p. map_of R t = Some p"
proof -
  from reachable_inv [OF run dis] obtain k where inv: "bfs_inv edges (set initial) k R []" ..
  from final_complete [OF inv s q] have "t \<in> fst ` set R" .
  then show ?thesis by (metis map_of_eq_None_iff not_Some_eq)
qed

lemma reachable_unreachable:
  assumes run: "reachable edges initial = Some R" and dis: "distinct initial"
    and t: "t \<notin> reach_set edges (set initial)"
  shows "map_of R t = None"
proof (cases "map_of R t")
  case None
  then show ?thesis .
next
  case (Some p)
  from reachable_shortest(1) [OF run dis Some] t show ?thesis
    by (auto simp: reach_set_def)
qed

lemma reachable_source:
  assumes run: "reachable edges initial = Some R" and dis: "distinct initial"
    and t: "t \<in> set initial"
  shows "map_of R t = Some []"
proof -
  have path: "is_path edges t [] t" by simp
  from reachable_complete [OF run dis t path] obtain p where p: "map_of R t = Some p" ..
  from reachable_shortest(2) [OF run dis p t path] have "p = []" by simp
  with p show ?thesis by simp
qed

lemma collect_datas_keys: "fst ` set (collect_datas ds) = mimeType ` set ds"
proof -
  have "fst ` set (foldl (\<lambda>datas d. AList.update (mimeType d) (data d) datas) acc ds)
          = fst ` set acc \<union> mimeType ` set ds" for acc :: "(mimetype \<times> 'a) list"
    by (induction ds arbitrary: acc) (auto simp: dom_update)
  from this [of "[]"] show ?thesis by (simp add: collect_datas_def)
qed

lemma convert_identity:
  assumes u: "collect_urls ds = [u]"
    and fin: "finite (reach_set (registry_converter r) (mimeType ` set ds))"
    and d: "d \<in> set ds" "mimeType d = t"
  shows "convert r ds t = Some ([Yield (find (\<lambda>d. mimeType d = t) ds)], None)"
proof -
  let ?conv = "registry_converter r"
  let ?S = "js_set id (map fst (collect_datas ds))"
  have S: "set ?S = mimeType ` set ds" by (simp add: js_set_id_set collect_datas_keys)
  from reachable_terminates [of ?conv ?S] fin obtain R where R: "reachable ?conv ?S = Some R"
    by (auto simp: S js_set_id_distinct)
  from d have "t \<in> set ?S" unfolding S by blast
  from reachable_source [OF R js_set_id_distinct this] have "map_of R t = Some []" .
  then show ?thesis
    using u R by (simp add: convert_unfold registry_reachable_unfold expandPath_def path_start_def falsy_def emit_def)
qed

lemma convert_unreachable:
  assumes u: "collect_urls ds = [u]"
    and fin: "finite (reach_set (registry_converter r) (mimeType ` set ds))"
    and t: "t \<notin> reach_set (registry_converter r) (mimeType ` set ds)"
  shows "convert r ds t = Some ([], None)"
proof -
  let ?conv = "registry_converter r"
  let ?S = "js_set id (map fst (collect_datas ds))"
  have S: "set ?S = mimeType ` set ds" by (simp add: js_set_id_set collect_datas_keys)
  from reachable_terminates [of ?conv ?S] fin obtain R where R: "reachable ?conv ?S = Some R"
    by (auto simp: S js_set_id_distinct)
  from reachable_unreachable [OF R js_set_id_distinct] t have "map_of R t = None"
    by (simp add: S)
  then show ?thesis
    using u R by (simp add: convert_unfold registry_reachable_unfold expandPath_def)
qed

section \<open>An exploration that does not end\<close>

text \<open>
  A converter that wraps every mimetype into the URL mimetype of it has an edge out of
  every mimetype, to a longer one: the frontier is never empty.
\<close>

lemma bfs_round_wrap:
  assumes e: "edges m = [(URLMimeType m, f)]" and k: "\<forall>k \<in> fst ` set P. length k \<le> length m"
  shows "bfs_round edges P [(m, p)] = (P @ [(URLMimeType m, p @ [(m, f)])], [(URLMimeType m, p @ [(m, f)])])"
proof -
  have "URLMimeType m \<notin> fst ` set P"
  proof
    assume "URLMimeType m \<in> fst ` set P"
    with k have "length (URLMimeType m) \<le> length m" by blast
    then show False by (simp add: URLMimeType_def baseMimeType_def)
  qed
  then show ?thesis by (simp add: bfs_round_def expand_node_def visit_edge_def e)
qed

lemma bfs_wrap_diverges:
  fixes edges :: "'t converter_fn"
  assumes e: "\<forall>m. edges m = [(URLMimeType m, f)]" and k: "\<forall>k \<in> fst ` set P. length k \<le> length m"
  shows "bfs edges P [(m, p)] = None"
proof (rule ccontr)
  assume "bfs edges P [(m, p)] \<noteq> None"
  then obtain R where run: "bfs edges P [(m, p)] = Some R" by auto
  have "\<forall>m' p'. [(m, p)] = [(m', p')] \<longrightarrow> (\<forall>m. edges m = [(URLMimeType m, f)])
          \<longrightarrow> (\<forall>k \<in> fst ` set P. length k \<le> length m') \<longrightarrow> False"
  proof (rule bfs.raw_induct
      [where P = "\<lambda>edges P F R. \<forall>m p. F = [(m, p)] \<longrightarrow> (\<forall>m. edges m = [(URLMimeType m, f)])
                                  \<longrightarrow> (\<forall>k \<in> fst ` set P. length k \<le> length m) \<longrightarrow> False",
        OF _ run])
    fix g :: "'t converter_fn \<Rightarrow> (mimetype \<times> 't path) list \<Rightarrow> (mimetype \<times> 't path) list
                \<Rightarrow> (mimetype \<times> 't path) list option"
    fix edges P F R
    assume IH: "\<And>edges P F R. g edges P F = Some R
        \<Longrightarrow> \<forall>m p. F = [(m, p)] \<longrightarrow> (\<forall>m. edges m = [(URLMimeType m, f)])
                                  \<longrightarrow> (\<forall>k \<in> fst ` set P. length k \<le> length m) \<longrightarrow> False"
    assume eq: "(if F = [] then Some P
                 else g edges (fst (bfs_round edges P F)) (snd (bfs_round edges P F))) = Some R"
    show "\<forall>m p. F = [(m, p)] \<longrightarrow> (\<forall>m. edges m = [(URLMimeType m, f)])
                                  \<longrightarrow> (\<forall>k \<in> fst ` set P. length k \<le> length m) \<longrightarrow> False"
    proof (intro allI impI)
      fix m p
      assume F: "F = [(m, p)]" and e: "\<forall>m. edges m = [(URLMimeType m, f)]"
        and k: "\<forall>k \<in> fst ` set P. length k \<le> length m"
      let ?x = "(URLMimeType m, p @ [(m, f)])"
      from e have em: "edges m = [(URLMimeType m, f)]" ..
      have round: "bfs_round edges P [(m, p)] = (P @ [?x], [?x])"
        using em k by (rule bfs_round_wrap [of edges m f P p])
      from eq have "g edges (P @ [?x]) [?x] = Some R" by (simp add: F round)
      from IH [OF this] e have "(\<forall>k \<in> fst ` set (P @ [?x]). length k \<le> length (URLMimeType m)) \<longrightarrow> False"
        by blast
      moreover have "\<forall>k \<in> fst ` set (P @ [?x]). length k \<le> length (URLMimeType m)"
        using k by (auto simp: URLMimeType_def)
      ultimately show False by blast
    qed
  qed
  with e k show False by blast
qed

lemma wrap_edges:
  "composeManyConverters [seperateConverter (\<lambda>m. Some (URLMimeType m)) f] m = [(URLMimeType m, f)]"
  by (simp add: composeManyConverters_def composeConverters_def emptyConverter_def
        seperateConverter_def singleConverter_def js_map_def)

lemma convert_wrap_diverges:
  "convert \<lparr>converters = [\<lparr>cid = i, cfn = seperateConverter (\<lambda>m. Some (URLMimeType m)) f\<rparr>], emitted = log\<rparr>
     [d] t = None"
proof -
  have "reachable (composeManyConverters [seperateConverter (\<lambda>m. Some (URLMimeType m)) f]) [mimeType d] = None"
    unfolding reachable_def by (simp add: bfs_wrap_diverges wrap_edges)
  then show ?thesis
    by (simp add: convert_unfold collect_urls_def collect_datas_def set_add_def registry_reachable_unfold
          registry_converter_def js_set_def)
qed

section \<open>The loop of convert\<close>

lemma emit_emit: "emit a (emit b r) = emit (a @ b) r"
  by (simp add: emit_def)

lemma emit_pair: "emit a (evs, out) = (a @ evs, out)"
  by (simp add: emit_def)

lemma convert_loop_append:
  "convert_loop ds u datas pre = (evs, None)
    \<Longrightarrow> convert_loop ds u datas (pre @ rest) = emit evs (convert_loop ds u (datas_after datas pre) rest)"
proof (induction ds u datas pre arbitrary: evs rule: convert_loop.induct)
  case (1 ds u datas)
  then show ?case by (simp add: emit_def)
next
  case (2 ds u datas ini cv res steps)
  show ?case
  proof (cases "falsy ini")
    case True
    obtain evs' out where r: "convert_loop ds u datas steps = (evs', out)" by (cases "convert_loop ds u datas steps")
    with "2.prems" True have out: "out = None" and evs: "evs = Yield (find (\<lambda>d. mimeType d = res) ds) # evs'"
      by (simp_all add: emit_def)
    from "2.IH"(1) [OF True r [unfolded out]] True show ?thesis
      by (simp add: emit_emit evs)
  next
    case False
    with "2.prems" obtain f where cv: "cv = Some f" by (cases cv) auto
    let ?arg = "map_of datas (case ini of None \<Rightarrow> [] | Some s \<Rightarrow> s)"
    from "2.prems" False cv obtain v where v: "call f ?arg = Inr v"
      by (cases "call f ?arg") (auto simp: Let_def)
    let ?datas' = "AList.update res v datas"
    obtain evs' out where r: "convert_loop ds u ?datas' steps = (evs', out)"
      by (cases "convert_loop ds u ?datas' steps")
    with "2.prems" False cv v have out: "out = None"
      and evs: "evs = [Invoke (tid f) ?arg, Yield (Some \<lparr>mimeType = res, url = u, data = v\<rparr>)] @ evs'"
      by (simp_all add: emit_def Let_def)
    from "2.IH"(2) [OF False cv refl v r [unfolded out]] False cv v show ?thesis
      by (simp add: emit_emit evs Let_def)
  qed
qed

section \<open>Registration and disposal\<close>

lemma set_delete_fresh:
  "ident x \<notin> ident ` set xs \<Longrightarrow> set_delete ident x (set_add ident x xs) = xs"
  by (force simp: set_delete_def set_add_def filter_id_conv image_iff)

lemma register_dispose_fresh:
  assumes "cid c \<notin> cid ` set (converters r)"
  shows "snd (dispose (fst (register c r)) (snd (register c r)))
           = r\<lparr>emitted := emitted r @ [(c, added), (c, removed)]\<rparr>"
  using assms by (simp add: register_def dispose_def set_delete_fresh)

lemma listTargetMimeTypes_fresh:
  assumes "cid c \<notin> cid ` set (converters r)"
  shows "listTargetMimeTypes (snd (dispose (fst (register c r)) (snd (register c r)))) S
           = listTargetMimeTypes r S"
  by (simp add: register_dispose_fresh [OF assms] listTargetMimeTypes_def registry_reachable_unfold
        registry_converter_def)

section \<open>Evaluating registries of static converters\<close>

lemmas conv_defs = registry_converter_def composeManyConverters_def
  composeConverters_def emptyConverter_def staticConverter_def seperateConverter_def singleConverter_def
  js_map_def

lemmas bfs_defs = bfs_round_def expand_node_def visit_edge_def

lemma is_path_target:
  assumes "\<And>m. fst ` set (edges m) \<subseteq> T"
  shows "is_path edges s q t \<Longrightarrow> t = s \<or> t \<in> T"
proof (induction q arbitrary: t rule: rev_induct)
  case Nil
  then show ?case by simp
next
  case (snoc e q)
  obtain m f where e: "e = (m, f)" by (cases e)
  from snoc.prems have "(t, f) \<in> set (edges m)" by (simp add: e is_path_snoc)
  then have "t \<in> fst ` set (edges m)" by force
  with assms show ?case by blast
qed

lemma reach_set_bound:
  assumes "\<And>m. fst ` set (edges m) \<subseteq> T"
  shows "reach_set edges S \<subseteq> S \<union> T"
  using is_path_target [OF assms] by (fastforce simp: reach_set_def)

lemma reach_set_finite:
  assumes "\<And>m. fst ` set (edges m) \<subseteq> T" and "finite S" and "finite T"
  shows "finite (reach_set edges S)"
  using reach_set_bound [OF assms(1), where S = S] assms(2,3) by (meson finite_UnI finite_subset)

lemma direct_edge_bfs:
  assumes "distinct [A, B, C]"
    and "edges A = [(B, fAB), (C, fAC)] \<or> edges A = [(C, fAC), (B, fAB)]"
    and "edges B = [(C, fBC)]" and "edges C = []"
  shows "\<exists>paths. reachable edges [A] = Some paths \<and> map_of paths C = Some [(A, fAC)]"
  using assms(2)
proof
  assume "edges A = [(B, fAB), (C, fAC)]"
  with assms(1,3,4) have "reachable edges [A] = Some [(A, []), (B, [(A, fAB)]), (C, [(A, fAC)])]"
    by (auto simp add: reachable_def bfs.simps bfs_defs)
  with assms(1) show ?thesis by auto
next
  assume "edges A = [(C, fAC), (B, fAB)]"
  with assms(1,3,4) have "reachable edges [A] = Some [(A, []), (C, [(A, fAC)]), (B, [(A, fAB)])]"
    by (auto simp add: reachable_def bfs.simps bfs_defs)
  with assms(1) show ?thesis by auto
qed

lemma direct_edge_converter:
  assumes "distinct [A, B, C]"
    and "cfn cAB = staticConverter A B fAB" "cfn cBC = staticConverter B C fBC" "cfn cAC = staticConverter A C fAC"
    and "converters r \<in> {[cAB, cBC, cAC], [cAB, cAC, cBC], [cBC, cAB, cAC],
                          [cBC, cAC, cAB], [cAC, cAB, cBC], [cAC, cBC, cAB]}"
  shows "registry_converter r A = [(B, fAB), (C, fAC)] \<or> registry_converter r A = [(C, fAC), (B, fAB)]"
    and "registry_converter r B = [(C, fBC)]" and "registry_converter r C = []"
  using assms by (auto simp add: conv_defs)

lemma direct_edge_reachable:
  assumes "distinct [A, B, C]"
    and "cfn cAB = staticConverter A B fAB" "cfn cBC = staticConverter B C fBC" "cfn cAC = staticConverter A C fAC"
    and "converters r \<in> {[cAB, cBC, cAC], [cAB, cAC, cBC], [cBC, cAB, cAC],
                          [cBC, cAC, cAB], [cAC, cAB, cBC], [cAC, cBC, cAB]}"
  shows "\<exists>paths. registry_reachable r [A] = Some paths \<and> map_of paths C = Some [(A, fAC)]"
  using direct_edge_bfs [OF assms(1) direct_edge_converter [OF assms]]
  by (simp add: registry_reachable_unfold js_set_def set_add_def)

lemma chain3_reachable:
  assumes "distinct [A, B, C, D]"
    and "cfn c1 = staticConverter A B f1" "cfn c2 = staticConverter B C f2" "cfn c3 = staticConverter C D f3"
    and "converters r = [c1, c2, c3]"
  shows "registry_reachable r [A]
   = Some [(A, []), (B, [(A, f1)]), (C, [(A, f1), (B, f2)]), (D, [(A, f1), (B, f2), (C, f3)])]"
  using assms by (auto simp add: registry_reachable_unfold reachable_def js_set_def set_add_def conv_defs bfs_defs bfs.simps)

lemma resolverURL_fn_with_url:
  "extractResolveMimeType m = Some resMimeType \<Longrightarrow>
     resolverURL_fn extractResolveMimeType m (Some u)
       = (if protocol u = ''http:'' \<or> protocol u = ''https:''
          then Inr (Some (URLMimeType resMimeType, \<lparr>tid = 0, call = (\<lambda>_. Inr u)\<rparr>))
          else Inr None)"
  by (simp add: resolverURL_fn_def)

section \<open>The sample registries\<close>

lemmas sample_defs = sample_url_def sample_csv_def resolving_def rejecting_def chain_registry_def
  triangle_registry_def wrapping_registry_def

lemma wrap_is_path_suffix:
  assumes "\<forall>m. edges m = [(URLMimeType m, f)]"
  shows "is_path edges s q t \<Longrightarrow> suffix s t"
proof (induction q arbitrary: t rule: rev_induct)
  case Nil
  then show ?case by simp
next
  case (snoc e q)
  obtain m g where e: "e = (m, g)" by (cases e)
  from snoc.prems have q: "is_path edges s q m" and edge: "(t, g) \<in> set (edges m)"
    by (simp_all add: e is_path_snoc)
  from edge assms have "t = URLMimeType m" by simp
  then have "suffix m t" by (simp add: URLMimeType_def suffix_def)
  with snoc.IH [OF q] show ?case by (rule suffix_order.trans)
qed

lemma wrapping_registry_edges:
  "registry_converter wrapping_registry m = [(URLMimeType m, resolving 1 ''http://example.org/x.csv'')]"
  by (simp add: wrapping_registry_def registry_converter_def wrap_edges)

lemma wrapping_registry_diverges: "convert wrapping_registry [d] t = None"
  unfolding wrapping_registry_def by (rule convert_wrap_diverges)

lemma wrapping_registry_unreachable: "registry_reachable wrapping_registry [m] = None"
  by (simp add: registry_reachable_unfold js_set_def set_add_def reachable_def
        bfs_wrap_diverges wrapping_registry_edges)

lemma blank_chain_reachable:
  "registry_reachable blank_chain_registry ['''']
     = Some [('''', []),
             (''application/json'', [('''', resolving 1 ''[1,2]'')]),
             (''text/markdown'', [('''', resolving 1 ''[1,2]''),
                                  (''application/json'', rejecting 2 ''no table'')]),
             (''text/html'', [('''', resolving 1 ''[1,2]''),
                              (''application/json'', rejecting 2 ''no table''),
                              (''text/markdown'', resolving 3 ''<p/>'')])]"
  by (rule chain3_reachable) (simp_all add: blank_chain_registry_def)

lemma blank_triangle_reachable:
  "registry_reachable blank_triangle_registry ['''']
     = Some [('''', []), (''application/json'', [('''', resolving 1 ''[1,2]'')]),
             (''text/html'', [('''', resolving 3 ''<table/>'')])]"
  by (simp add: blank_triangle_registry_def registry_reachable_unfold reachable_def js_set_def
        set_add_def conv_defs bfs_defs bfs.simps)

lemma triangle_registry_targets:
  "fst ` set (registry_converter triangle_registry m) \<subseteq> {''application/json'', ''text/html''}"
  by (simp add: triangle_registry_def conv_defs)

lemma triangle_registry_finite:
  "finite (reach_set (registry_converter triangle_registry) (mimeType ` set [sample_csv]))"
  by (rule reach_set_finite [where T = "{''application/json'', ''text/html''}"])
     (simp_all add: triangle_registry_targets)

lemma sample_csv_one_url: "card (url_ref ` url ` set [sample_csv]) = 1"
  by simp

section \<open>Shortest conversion paths\<close>

text \<open>
  C1, as amended. For a fixed registration order from which only finitely many mimetypes
  are reachable from the source mimetypes, the registry computes a conversion path for
  every target mimetype that some path reaches: it is a path of the mimetype graph from
  one of the source mimetypes, and no path from a source mimetype to the target has fewer
  hops. In particular, with converters \<open>A \<rightarrow> B\<close>, \<open>B \<rightarrow> C\<close> and \<open>A \<rightarrow> C\<close> registered in
  any of the six orders, for distinct mimetypes \<open>A\<close>, \<open>B\<close>, \<open>C\<close> with \<open>A\<close> not the empty
  string, converting a dataset of mimetype \<open>A\<close> to \<open>C\<close> yields two elements, the source
  dataset and then the \<open>C\<close> dataset made by the transform of the direct edge, which is
  the only transform called. As the claim is written it fails twice. Over a converter
  that wraps every mimetype into a new one the exploration does not end, so no path is
  computed even for a target one hop away. And when \<open>A\<close> is the empty string the loop
  takes the hop out of \<open>A\<close> for the first part of the path (\<^verbatim>\<open>!initialMimeType\<close> holds
  of the empty string): the second element is \<^verbatim>\<open>undefined\<close> and no transform is
  called.
\<close>

theorem shortest_conversion_path:
  "(finite (reach_set (registry_converter r) (set sources)) \<and> s \<in> set sources
        \<and> is_path (registry_converter r) s q target
      \<longrightarrow> (\<exists>paths p. registry_reachable r sources = Some paths \<and> map_of paths target = Some p
             \<and> (\<exists>s' \<in> set sources. is_path (registry_converter r) s' p target)
             \<and> (\<forall>s' \<in> set sources. \<forall>q'. is_path (registry_converter r) s' q' target
                    \<longrightarrow> length p \<le> length q')))
   \<and> (distinct [A, B, C] \<and> A \<noteq> []
        \<and> cfn cAB = staticConverter A B fAB \<and> cfn cBC = staticConverter B C fBC
        \<and> cfn cAC = staticConverter A C fAC
        \<and> converters r' \<in> {[cAB, cBC, cAC], [cAB, cAC, cBC], [cBC, cAB, cAC],
                             [cBC, cAC, cAB], [cAC, cAB, cBC], [cAC, cBC, cAB]}
        \<and> mimeType d = A \<and> call fAC (Some (data d)) = Inr v
      \<longrightarrow> convert r' [d] C
            = Some ([Yield (Some d), Invoke (tid fAC) (Some (data d)),
                     Yield (Some \<lparr>mimeType = C, url = url d, data = v\<rparr>)], None))"
proof (intro conjI impI)
  assume a: "finite (reach_set (registry_converter r) (set sources)) \<and> s \<in> set sources
        \<and> is_path (registry_converter r) s q target"
  then have s: "s \<in> set (js_set id sources)" and q: "is_path (registry_converter r) s q target"
    by (simp_all add: js_set_id_set)
  from a reachable_terminates [of "registry_converter r" "js_set id sources"]
  obtain R where run: "reachable (registry_converter r) (js_set id sources) = Some R"
    by (auto simp: js_set_id_set js_set_id_distinct)
  from reachable_complete [OF run js_set_id_distinct s q] obtain p where p: "map_of R target = Some p" ..
  from reachable_shortest(1) [OF run js_set_id_distinct p]
  have valid: "\<exists>s' \<in> set sources. is_path (registry_converter r) s' p target"
    by (simp add: js_set_id_set)
  from reachable_shortest(2) [OF run js_set_id_distinct p]
  have least: "\<forall>s' \<in> set sources. \<forall>q'. is_path (registry_converter r) s' q' target
                    \<longrightarrow> length p \<le> length q'"
    by (simp add: js_set_id_set)
  from run p valid least
  show "\<exists>paths p. registry_reachable r sources = Some paths \<and> map_of paths target = Some p
             \<and> (\<exists>s' \<in> set sources. is_path (registry_converter r) s' p target)
             \<and> (\<forall>s' \<in> set sources. \<forall>q'. is_path (registry_converter r) s' q' target
                    \<longrightarrow> length p \<le> length q')"
    unfolding registry_reachable_unfold by blast
next
  assume a: "distinct [A, B, C] \<and> A \<noteq> []
        \<and> cfn cAB = staticConverter A B fAB \<and> cfn cBC = staticConverter B C fBC
        \<and> cfn cAC = staticConverter A C fAC
        \<and> converters r' \<in> {[cAB, cBC, cAC], [cAB, cAC, cBC], [cBC, cAB, cAC],
                             [cBC, cAC, cAB], [cAC, cAB, cBC], [cAC, cBC, cAB]}
        \<and> mimeType d = A \<and> call fAC (Some (data d)) = Inr v"
  then obtain paths where reach: "registry_reachable r' [A] = Some paths"
    and p: "map_of paths C = Some [(A, fAC)]"
    using direct_edge_reachable [of A B C cAB fAB cBC fBC cAC fAC r'] by blast
  have urls: "collect_urls [d] = [url d]" by (simp add: collect_urls_def set_add_def)
  have datas: "collect_datas [d] = [(A, data d)]" using a by (simp add: collect_datas_def)
  from a show "convert r' [d] C
            = Some ([Yield (Some d), Invoke (tid fAC) (Some (data d)),
                     Yield (Some \<lparr>mimeType = C, url = url d, data = v\<rparr>)], None)"
    by (simp add: convert_unfold urls datas reach p expandPath_def path_start_def falsy_def emit_def Let_def)
qed

theorem shortest_conversion_path_witness:
  "finite (reach_set (registry_converter triangle_registry) (set [''text/csv'']))
   \<and> is_path (registry_converter triangle_registry) ''text/csv''
         [(''text/csv'', resolving 1 ''[1,2]''), (''application/json'', resolving 2 ''<ol/>'')] ''text/html''
   \<and> registry_reachable triangle_registry [''text/csv'']
     = Some [(''text/csv'', []), (''application/json'', [(''text/csv'', resolving 1 ''[1,2]'')]),
             (''text/html'', [(''text/csv'', resolving 3 ''<table/>'')])]
   \<and> is_path (registry_converter triangle_registry) ''text/csv''
         [(''text/csv'', resolving 3 ''<table/>'')] ''text/html''
   \<and> convert triangle_registry [sample_csv] ''text/html''
       = Some ([Yield (Some sample_csv), Invoke 3 (Some ''1,2''),
                Yield (Some \<lparr>mimeType = ''text/html'', url = sample_url, data = ''<table/>''\<rparr>)], None)"
proof -
  let ?paths = "[(''text/csv'', []), (''application/json'', [(''text/csv'', resolving 1 ''[1,2]'')]),
             (''text/html'', [(''text/csv'', resolving 3 ''<table/>'')])]"
  let ?q = "[(''text/csv'', resolving 1 ''[1,2]''), (''application/json'', resolving 2 ''<ol/>'')]"
  have reach: "registry_reachable triangle_registry [''text/csv''] = Some ?paths"
    by (simp add: triangle_registry_def registry_reachable_unfold reachable_def js_set_def set_add_def
          conv_defs bfs_defs bfs.simps)
  have q: "is_path (registry_converter triangle_registry) ''text/csv'' ?q ''text/html''"
    by (simp add: triangle_registry_def conv_defs)
  have fin: "finite (reach_set (registry_converter triangle_registry) (set [''text/csv'']))"
    using triangle_registry_finite by (simp add: sample_csv_def)
  note inst = shortest_conversion_path
    [where r = triangle_registry and sources = "[''text/csv'']"
       and target = "''text/html''" and s = "''text/csv''" and q = ?q
       and A = "''text/csv''" and B = "''application/json''" and C = "''text/html''"
       and cAB = "\<lparr>cid = 1, cfn = staticConverter ''text/csv'' ''application/json'' (resolving 1 ''[1,2]'')\<rparr>"
       and cBC = "\<lparr>cid = 2, cfn = staticConverter ''application/json'' ''text/html'' (resolving 2 ''<ol/>'')\<rparr>"
       and cAC = "\<lparr>cid = 3, cfn = staticConverter ''text/csv'' ''text/html'' (resolving 3 ''<table/>'')\<rparr>"
       and fAB = "resolving 1 ''[1,2]''" and fBC = "resolving 2 ''<ol/>''"
       and fAC = "resolving 3 ''<table/>''"
       and r' = triangle_registry and d = sample_csv and v = "''<table/>''"]
  have "finite (reach_set (registry_converter triangle_registry) (set [''text/csv'']))
      \<and> ''text/csv'' \<in> set [''text/csv'']
      \<and> is_path (registry_converter triangle_registry) ''text/csv'' ?q ''text/html''"
    using fin q by simp
  from inst [THEN conjunct1, THEN mp, OF this] reach
  have "\<exists>s' \<in> set [''text/csv'']. is_path (registry_converter triangle_registry) s'
          [(''text/csv'', resolving 3 ''<table/>'')] ''text/html''"
    by auto
  then have "is_path (registry_converter triangle_registry) ''text/csv''
         [(''text/csv'', resolving 3 ''<table/>'')] ''text/html''"
    by simp
  moreover from inst [THEN conjunct2]
  have "convert triangle_registry [sample_csv] ''text/html''
       = Some ([Yield (Some sample_csv), Invoke 3 (Some ''1,2''),
                Yield (Some \<lparr>mimeType = ''text/html'', url = sample_url, data = ''<table/>''\<rparr>)], None)"
    by (simp add: sample_defs)
  ultimately show ?thesis using fin reach q by simp
qed

theorem shortest_conversion_path_counterexample:
  "is_path (registry_converter wrapping_registry) ''text/csv''
     [(''text/csv'', resolving 1 ''http://example.org/x.csv'')] (URLMimeType ''text/csv'')
   \<and> registry_reachable wrapping_registry [''text/csv''] = None
   \<and> convert wrapping_registry [sample_csv] (URLMimeType ''text/csv'') = None
   \<and> convert blank_triangle_registry [sample_blank] ''text/html''
       = Some ([Yield (Some sample_blank), Yield None], None)"
proof -
  have "convert blank_triangle_registry [sample_blank] ''text/html''
       = Some ([Yield (Some sample_blank), Yield None], None)"
    by (simp add: convert_unfold collect_urls_def collect_datas_def set_add_def sample_blank_def
          blank_triangle_reachable expandPath_def falsy_def emit_def)
  then show ?thesis
    by (simp add: wrapping_registry_edges wrapping_registry_unreachable wrapping_registry_diverges)
qed

section \<open>A hop that fails\<close>

text \<open>
  The law of a failing hop, whatever the two functions of the graph module are: when the
  transform of a hop whose source mimetype is not the empty string rejects, the events up
  to the hop are those of the steps before it, unchanged, then comes the call of the
  transform, and nothing after it; the sequence fails with the reason of the rejection.
  For a path of three hops \<open>A \<rightarrow> B \<rightarrow> C \<rightarrow> D\<close>, \<open>A\<close> and \<open>B\<close> not the empty string, whose
  second transform rejects, the consumer receives the source dataset and the result of
  hop 1, then the sequence fails; the transform of hop 3 is never called.
\<close>

lemma convert_hop_failure:
  "(collect_urls sourceDatasets = [u]
      \<and> registry_reachable_with graph_reachable r (map fst (collect_datas sourceDatasets)) = Some paths
      \<and> graph_expandPath targetMimeType (map_of paths targetMimeType)
          = pre @ (Some m, Some f, resultMimeType) # post
      \<and> convert_loop sourceDatasets u (collect_datas sourceDatasets) pre = (evs, None)
      \<and> m \<noteq> [] \<and> call f (map_of (datas_after (collect_datas sourceDatasets) pre) m) = Inl e
    \<longrightarrow> convert_with graph_reachable graph_expandPath r sourceDatasets targetMimeType
          = Some (evs @ [Invoke (tid f) (map_of (datas_after (collect_datas sourceDatasets) pre) m)],
                  Some (HopFailed e)))
   \<and> (mimeType d = A \<and> A \<noteq> [] \<and> B \<noteq> []
      \<and> registry_reachable_with graph_reachable r' [A] = Some paths'
      \<and> graph_expandPath D (map_of paths' D)
          = [(None, None, A), (Some A, Some f1, B), (Some B, Some f2, C), (Some C, Some f3, D)]
      \<and> call f1 (Some (data d)) = Inr v \<and> call f2 (Some v) = Inl e'
    \<longrightarrow> convert_with graph_reachable graph_expandPath r' [d] D
          = Some ([Yield (Some d), Invoke (tid f1) (Some (data d)),
                   Yield (Some \<lparr>mimeType = B, url = url d, data = v\<rparr>),
                   Invoke (tid f2) (Some v)], Some (HopFailed e')))"
proof (intro conjI impI)
  assume a: "collect_urls sourceDatasets = [u]
      \<and> registry_reachable_with graph_reachable r (map fst (collect_datas sourceDatasets)) = Some paths
      \<and> graph_expandPath targetMimeType (map_of paths targetMimeType)
          = pre @ (Some m, Some f, resultMimeType) # post
      \<and> convert_loop sourceDatasets u (collect_datas sourceDatasets) pre = (evs, None)
      \<and> m \<noteq> [] \<and> call f (map_of (datas_after (collect_datas sourceDatasets) pre) m) = Inl e"
  then have pre: "convert_loop sourceDatasets u (collect_datas sourceDatasets) pre = (evs, None)"
    by simp
  from a show "convert_with graph_reachable graph_expandPath r sourceDatasets targetMimeType
          = Some (evs @ [Invoke (tid f) (map_of (datas_after (collect_datas sourceDatasets) pre) m)],
                  Some (HopFailed e))"
    by (simp add: convert_with_def convert_loop_append [OF pre] falsy_def emit_def)
next
  assume a: "mimeType d = A \<and> A \<noteq> [] \<and> B \<noteq> []
      \<and> registry_reachable_with graph_reachable r' [A] = Some paths'
      \<and> graph_expandPath D (map_of paths' D)
          = [(None, None, A), (Some A, Some f1, B), (Some B, Some f2, C), (Some C, Some f3, D)]
      \<and> call f1 (Some (data d)) = Inr v \<and> call f2 (Some v) = Inl e'"
  have urls: "collect_urls [d] = [url d]" by (simp add: collect_urls_def set_add_def)
  have datas: "collect_datas [d] = [(A, data d)]" using a by (simp add: collect_datas_def)
  from a show "convert_with graph_reachable graph_expandPath r' [d] D
          = Some ([Yield (Some d), Invoke (tid f1) (Some (data d)),
                   Yield (Some \<lparr>mimeType = B, url = url d, data = v\<rparr>),
                   Invoke (tid f2) (Some v)], Some (HopFailed e'))"
    by (auto simp add: convert_with_def urls datas falsy_def emit_def Let_def)
qed

lemma chain_registry_hop_failure:
  "convert_loop [sample_csv] sample_url (collect_datas [sample_csv])
     [(None, None, ''text/csv''),
      (Some ''text/csv'', Some (resolving 1 ''[1,2]''), ''application/json'')]
   = ([Yield (Some sample_csv), Invoke 1 (Some ''1,2''),
       Yield (Some \<lparr>mimeType = ''application/json'', url = sample_url, data = ''[1,2]''\<rparr>)], None)
   \<and> call (rejecting 2 ''no table'')
        (map_of (datas_after (collect_datas [sample_csv])
                  [(None, None, ''text/csv''),
                   (Some ''text/csv'', Some (resolving 1 ''[1,2]''), ''application/json'')])
           ''application/json'') = Inl ''no table''
   \<and> convert chain_registry [sample_csv] ''text/html''
   = Some ([Yield (Some sample_csv), Invoke 1 (Some ''1,2''),
            Yield (Some \<lparr>mimeType = ''application/json'', url = sample_url, data = ''[1,2]''\<rparr>),
            Invoke 2 (Some ''[1,2]'')],
           Some (HopFailed ''no table''))"
proof -
  let ?paths = "[(''text/csv'', []),
                 (''application/json'', [(''text/csv'', resolving 1 ''[1,2]'')]),
                 (''text/markdown'', [(''text/csv'', resolving 1 ''[1,2]''),
                                      (''application/json'', rejecting 2 ''no table'')]),
                 (''text/html'', [(''text/csv'', resolving 1 ''[1,2]''),
                                  (''application/json'', rejecting 2 ''no table''),
                                  (''text/markdown'', resolving 3 ''<p/>'')])]"
  let ?pre = "[(None, None, ''text/csv''),
               (Some ''text/csv'', Some (resolving 1 ''[1,2]''), ''application/json'')]"
  let ?evs = "[Yield (Some sample_csv), Invoke 1 (Some ''1,2''),
               Yield (Some \<lparr>mimeType = ''application/json'', url = sample_url, data = ''[1,2]''\<rparr>)]"
  have reach: "registry_reachable_with reachable chain_registry [''text/csv''] = Some ?paths"
    using chain3_reachable [of "''text/csv''" "''application/json''" "''text/markdown''" "''text/html''"
        "\<lparr>cid = 1, cfn = staticConverter ''text/csv'' ''application/json'' (resolving 1 ''[1,2]'')\<rparr>"
        "resolving 1 ''[1,2]''"
        "\<lparr>cid = 2, cfn = staticConverter ''application/json'' ''text/markdown'' (rejecting 2 ''no table'')\<rparr>"
        "rejecting 2 ''no table''"
        "\<lparr>cid = 3, cfn = staticConverter ''text/markdown'' ''text/html'' (resolving 3 ''<p/>'')\<rparr>"
        "resolving 3 ''<p/>''" chain_registry]
    by (simp add: chain_registry_def registry_reachable_def)
  have steps: "expandPath ''text/html'' (map_of ?paths ''text/html'')
      = ?pre @ (Some ''application/json'', Some (rejecting 2 ''no table''), ''text/markdown'')
             # [(Some ''text/markdown'', Some (resolving 3 ''<p/>''), ''text/html'')]"
    by (simp add: expandPath_def)
  have urls: "collect_urls [sample_csv] = [sample_url]"
    by (simp add: collect_urls_def set_add_def sample_csv_def)
  have datas: "collect_datas [sample_csv] = [(''text/csv'', ''1,2'')]"
    by (simp add: collect_datas_def sample_csv_def)
  have pre: "convert_loop [sample_csv] sample_url (collect_datas [sample_csv]) ?pre = (?evs, None)"
    by (simp add: datas falsy_def emit_def resolving_def) (simp add: sample_csv_def)
  have rej: "call (rejecting 2 ''no table'')
        (map_of (datas_after (collect_datas [sample_csv]) ?pre) ''application/json'') = Inl ''no table''"
    by (simp add: rejecting_def)
  have reach': "registry_reachable_with reachable chain_registry (map fst (collect_datas [sample_csv]))
      = Some ?paths"
    using reach by (simp add: datas)
  have "collect_urls [sample_csv] = [sample_url]
      \<and> registry_reachable_with reachable chain_registry (map fst (collect_datas [sample_csv]))
          = Some ?paths
      \<and> expandPath ''text/html'' (map_of ?paths ''text/html'')
          = ?pre @ (Some ''application/json'', Some (rejecting 2 ''no table''), ''text/markdown'')
                 # [(Some ''text/markdown'', Some (resolving 3 ''<p/>''), ''text/html'')]
      \<and> convert_loop [sample_csv] sample_url (collect_datas [sample_csv]) ?pre = (?evs, None)
      \<and> ''application/json'' \<noteq> []
      \<and> call (rejecting 2 ''no table'')
           (map_of (datas_after (collect_datas [sample_csv]) ?pre) ''application/json'')
          = Inl ''no table''"
    using urls reach' steps pre rej by (intro conjI) simp_all
  from convert_hop_failure
      [where graph_reachable = reachable and graph_expandPath = expandPath
         and r = chain_registry and sourceDatasets = "[sample_csv]" and u = sample_url
         and paths = ?paths and targetMimeType = "''text/html''" and pre = ?pre
         and m = "''application/json''" and f = "rejecting 2 ''no table''"
         and resultMimeType = "''text/markdown''"
         and post = "[(Some ''text/markdown'', Some (resolving 3 ''<p/>''), ''text/html'')]"
         and evs = ?evs and e = "''no table''",
       THEN conjunct1, THEN mp, OF this]
  have general: "convert_with reachable expandPath chain_registry [sample_csv] ''text/html''
     = Some (?evs @ [Invoke (tid (rejecting 2 ''no table''))
                      (map_of (datas_after (collect_datas [sample_csv]) ?pre) ''application/json'')],
             Some (HopFailed ''no table''))" .
  have chain: "convert chain_registry [sample_csv] ''text/html''
     = Some ([Yield (Some sample_csv), Invoke 1 (Some ''1,2''),
            Yield (Some \<lparr>mimeType = ''application/json'', url = sample_url, data = ''[1,2]''\<rparr>),
            Invoke 2 (Some ''[1,2]'')],
           Some (HopFailed ''no table''))"
    using convert_hop_failure
      [where graph_reachable = reachable and graph_expandPath = expandPath
         and r' = chain_registry and d = sample_csv and paths' = ?paths
         and A = "''text/csv''" and B = "''application/json''" and C = "''text/markdown''"
         and D = "''text/html''"
         and ?f1.0 = "resolving 1 ''[1,2]''" and ?f2.0 = "rejecting 2 ''no table''"
         and ?f3.0 = "resolving 3 ''<p/>''" and v = "''[1,2]''" and e' = "''no table''",
       THEN conjunct2]
      reach steps
    by (simp add: convert_def sample_csv_def resolving_def rejecting_def)
  from general have "convert chain_registry [sample_csv] ''text/html''
     = Some (?evs @ [Invoke 2 (Some ''[1,2]'')], Some (HopFailed ''no table''))"
    by (simp add: convert_def datas falsy_def rejecting_def resolving_def)
  with pre rej chain show ?thesis by simp
qed

text \<open>
  C2. If the transform of a hop of the conversion path rejects, the sequence of
  \<open>convert\<close> is to fail at that point with that error, with no dataset yielded for that
  hop or a later one; for a path of three hops whose second transform rejects it is to
  yield exactly one produced element, the result of hop 1, before it fails, and never to
  call the transform of hop 3. The code, on the chain of three converters that starts at
  the empty string as mimetype: the loop takes the first hop for the first part of the
  path, since \<^verbatim>\<open>!initialMimeType\<close> holds of the empty string; it yields
  \<^verbatim>\<open>undefined\<close> for it without calling its transform, and calls the transform of
  hop 2 on \<^verbatim>\<open>undefined\<close>. The sequence fails there with no result of hop 1 among its
  elements.
\<close>

theorem hop_failure_empty_mimetype:
  "convert blank_chain_registry [sample_blank] ''text/html''
     = Some ([Yield (Some sample_blank), Yield None, Invoke 2 None], Some (HopFailed ''no table''))"
  by (simp add: convert_unfold collect_urls_def collect_datas_def set_add_def sample_blank_def
        blank_chain_reachable expandPath_def falsy_def emit_def rejecting_def)

section \<open>Datasets of more than one URL\<close>

text \<open>
  C3. For every call of \<open>convert\<close> whose input datasets reference more than one URL
  (two of them carry URL objects of different identity), the inconsistent-source error is
  raised before any output is produced and before any transform executes: the trace of
  the call is empty. The check precedes every use of the graph module, so this holds
  whatever its two functions are.
\<close>

theorem convert_inconsistent_source:
  assumes "d1 \<in> set sourceDatasets" and "d2 \<in> set sourceDatasets"
    and "url_ref (url d1) \<noteq> url_ref (url d2)"
  shows "convert_with graph_reachable graph_expandPath r sourceDatasets targetMimeType
           = Some ([], Some InconsistentSource)
         \<and> convert r sourceDatasets targetMimeType = Some ([], Some InconsistentSource)"
proof -
  have "finite (url_ref ` url ` set sourceDatasets)" by simp
  moreover have "url_ref (url d1) \<in> url_ref ` url ` set sourceDatasets"
    and "url_ref (url d2) \<in> url_ref ` url ` set sourceDatasets"
    using assms(1,2) by blast+
  ultimately have "card (url_ref ` url ` set sourceDatasets) \<noteq> 1"
    using assms(3) by (metis card_1_singletonE singletonD)
  then show ?thesis
    by (simp add: convert_with_inconsistent convert_inconsistent)
qed

theorem convert_inconsistent_source_witness:
  "convert new_registry
     [\<lparr>mimeType = ''text/csv'', url = \<lparr>url_ref = 1, protocol = ''http:'', href = ''http://a/x.csv''\<rparr>, data = ''1,2''\<rparr>,
      \<lparr>mimeType = ''text/plain'', url = \<lparr>url_ref = 2, protocol = ''http:'', href = ''http://b/y.txt''\<rparr>, data = ''12''\<rparr>]
     ''text/html'' = Some ([], Some InconsistentSource)"
  using convert_inconsistent_source
        [of "\<lparr>mimeType = ''text/csv'', url = \<lparr>url_ref = 1, protocol = ''http:'', href = ''http://a/x.csv''\<rparr>, data = ''1,2''\<rparr>"
            "[\<lparr>mimeType = ''text/csv'', url = \<lparr>url_ref = 1, protocol = ''http:'', href = ''http://a/x.csv''\<rparr>, data = ''1,2''\<rparr>,
              \<lparr>mimeType = ''text/plain'', url = \<lparr>url_ref = 2, protocol = ''http:'', href = ''http://b/y.txt''\<rparr>, data = ''12''\<rparr>]"
            "\<lparr>mimeType = ''text/plain'', url = \<lparr>url_ref = 2, protocol = ''http:'', href = ''http://b/y.txt''\<rparr>, data = ''12''\<rparr>"
            reachable expandPath new_registry "''text/html''"]
  by simp

section \<open>The identity path\<close>

text \<open>
  C4, as amended. For a dataset whose mimetype is the target mimetype (the first of the
  source datasets with that mimetype, the sources sharing one URL), and a registry from
  which only finitely many mimetypes are reachable from the source mimetypes, \<open>convert\<close>
  yields a one-element sequence whose sole element is that dataset, and no transform is
  called. As the claim is written, for every registry, it fails: over a converter that
  wraps every mimetype into a new one the exploration does not end and nothing is
  yielded.
\<close>

theorem convert_identity_path:
  assumes "card (url_ref ` url ` set sourceDatasets) = 1"
    and "finite (reach_set (registry_converter r) (mimeType ` set sourceDatasets))"
    and "find (\<lambda>x. mimeType x = targetMimeType) sourceDatasets = Some d"
  shows "convert r sourceDatasets targetMimeType = Some ([Yield (Some d)], None)"
proof -
  from assms(1) obtain u where u: "collect_urls sourceDatasets = [u]"
    using collect_urls_single by blast
  from assms(3) have d: "d \<in> set sourceDatasets" "mimeType d = targetMimeType"
    by (auto simp: find_Some_iff)
  from convert_identity [OF u assms(2) d] assms(3) show ?thesis by simp
qed

theorem convert_identity_path_witness:
  "find (\<lambda>x. mimeType x = ''text/csv'') [sample_csv] = Some sample_csv
   \<and> convert triangle_registry [sample_csv] ''text/csv'' = Some ([Yield (Some sample_csv)], None)"
proof -
  have f: "find (\<lambda>x. mimeType x = ''text/csv'') [sample_csv] = Some sample_csv"
    by (simp add: sample_csv_def)
  from convert_identity_path [OF sample_csv_one_url triangle_registry_finite f] f
  show ?thesis by simp
qed

theorem convert_identity_path_counterexample:
  "card (url_ref ` url ` set [sample_csv]) = 1
   \<and> find (\<lambda>x. mimeType x = ''text/csv'') [sample_csv] = Some sample_csv
   \<and> convert wrapping_registry [sample_csv] ''text/csv'' = None"
  by (simp add: wrapping_registry_diverges) (simp add: sample_csv_def)

section \<open>Unreachable targets\<close>

text \<open>
  C5, as amended. For input datasets sharing one URL and a target mimetype that is not
  reachable from their mimetypes through the registered converters, \<open>convert\<close> yields
  the empty sequence and does not throw, provided only finitely many mimetypes are
  reachable from the source mimetypes. As the claim is written, for every registry, it
  fails: over a converter that wraps every mimetype into a new one the exploration does
  not end, so the sequence is never completed.
\<close>

theorem convert_unreachable_target:
  assumes "card (url_ref ` url ` set sourceDatasets) = 1"
    and "finite (reach_set (registry_converter r) (mimeType ` set sourceDatasets))"
    and "targetMimeType \<notin> reach_set (registry_converter r) (mimeType ` set sourceDatasets)"
  shows "convert r sourceDatasets targetMimeType = Some ([], None)"
proof -
  from assms(1) obtain u where u: "collect_urls sourceDatasets = [u]"
    using collect_urls_single by blast
  from convert_unreachable [OF u assms(2,3)] show ?thesis .
qed

theorem convert_unreachable_target_witness:
  "''nonexistent/type'' \<notin> reach_set (registry_converter triangle_registry) (mimeType ` set [sample_csv])
   \<and> convert triangle_registry [sample_csv] ''nonexistent/type'' = Some ([], None)"
proof -
  have u: "''nonexistent/type'' \<notin> reach_set (registry_converter triangle_registry) (mimeType ` set [sample_csv])"
    using reach_set_bound [where edges = "registry_converter triangle_registry"
        and T = "{''application/json'', ''text/html''}" and S = "mimeType ` set [sample_csv]"]
      triangle_registry_targets
    by (auto simp: sample_csv_def)
  from convert_unreachable_target [OF sample_csv_one_url triangle_registry_finite u] u
  show ?thesis by simp
qed

theorem convert_unreachable_target_counterexample:
  "card (url_ref ` url ` set [sample_csv]) = 1
   \<and> ''nonexistent/type'' \<notin> reach_set (registry_converter wrapping_registry) (mimeType ` set [sample_csv])
   \<and> convert wrapping_registry [sample_csv] ''nonexistent/type'' = None"
proof -
  have "\<not> suffix ''text/csv'' ''nonexistent/type''"
    by (simp add: suffix_to_prefix)
  then have "''nonexistent/type'' \<notin> reach_set (registry_converter wrapping_registry) (mimeType ` set [sample_csv])"
    using wrap_is_path_suffix [of "registry_converter wrapping_registry" "resolving 1 ''http://example.org/x.csv''"]
    by (auto simp: reach_set_def wrapping_registry_edges sample_csv_def)
  then show ?thesis by (simp add: wrapping_registry_diverges)
qed

section \<open>Registering a converter twice\<close>

text \<open>
  C6. \<open>register\<close> is to add the converter to the set and to fail with a duplicate
  registration error exactly when the same function object is already present. The code,
  on a converter registered twice: the second call leaves the set as the first made it
  (the converter is in it once), emits \<open>added\<close> a second time and returns a live
  handle; no error is raised.
\<close>

theorem register_twice:
  "converters (snd (register c (snd (register c r)))) = converters (snd (register c r))
   \<and> emitted (snd (register c (snd (register c r)))) = emitted r @ [(c, added), (c, added)]
   \<and> pending (fst (register c (snd (register c r)))) = Some c"
  by (simp add: register_def set_add_def)

section \<open>The URL wrapper round trip\<close>

text \<open>
  C7. For every string \<open>m\<close>, \<open>extractURLMimeType (URLMimeType m)\<close> is \<open>m\<close>;
  \<open>extractURLMimeType s\<close> is null exactly when \<open>s\<close> does not start with the prefix
  \<open>application/x.jupyter.url; mimeType=\<close>, and so it is null on \<open>text/plain\<close>.
\<close>

theorem extractURLMimeType_roundtrip:
  "extractURLMimeType (URLMimeType m) = Some m
   \<and> (extractURLMimeType s = None
        \<longleftrightarrow> \<not> prefix ''application/x.jupyter.url; mimeType='' s)
   \<and> extractURLMimeType ''text/plain'' = None"
  by (simp add: extractURLMimeType_def URLMimeType_def baseMimeType_def)

section \<open>The resolver converter called by the registry\<close>

text \<open>
  C8. \<open>resolverURLConverter\<close> is to produce an edge to the wrapped mimetype exactly
  when the carried URL is of scheme http or https, and no edge, without error, otherwise.
  The code: the converter built by \<open>singleConverter\<close> calls the function with the
  mimetype alone, so on every mimetype recognised as a resolve wrapper the function reads
  the protocol of an undefined URL and throws; on an unrecognised mimetype it returns the
  empty map.
\<close>

theorem resolverURLConverter_throws:
  "(extractResolveMimeType m = Some resMimeType
      \<longrightarrow> resolverURLConverter extractResolveMimeType m = Inl TypeError)
   \<and> (extractResolveMimeType m = None
      \<longrightarrow> resolverURLConverter extractResolveMimeType m = Inr [])"
  by (simp add: resolverURLConverter_def resolverURL_fn_def singleConverter_def js_map_def)

theorem resolverURLConverter_throws_witness:
  "(\<lambda>m. if m = ''resolve'' then Some ''text/csv'' else None) ''resolve'' = Some ''text/csv''
   \<and> resolverURLConverter (\<lambda>m. if m = ''resolve'' then Some ''text/csv'' else None) ''resolve'' = Inl TypeError
   \<and> (\<lambda>m. if m = ''resolve'' then Some ''text/csv'' else None) ''text/plain'' = None
   \<and> resolverURLConverter (\<lambda>m. if m = ''resolve'' then Some ''text/csv'' else None) ''text/plain'' = Inr []"
  using resolverURLConverter_throws [of "\<lambda>m. if m = ''resolve'' then Some ''text/csv'' else None" "''resolve''" "''text/csv''"]
    resolverURLConverter_throws [of "\<lambda>m. if m = ''resolve'' then Some ''text/csv'' else None" "''text/plain''" "''text/csv''"]
  by simp

section \<open>The registration lifecycle\<close>

text \<open>
  C9. Registering a converter and disposing the returned handle is to leave
  \<open>listTargetMimeTypes\<close> as it was before the registration, in every state of the
  registry, the signal firing \<open>added\<close> and then \<open>removed\<close>. The code, on a registry in
  which the converter from \<open>text/csv\<close> to \<open>text/html\<close> is already registered: before
  the pair of calls \<open>text/html\<close> is a target of \<open>text/csv\<close>, after it it is not.
\<close>

theorem register_dispose_of_registered:
  "listTargetMimeTypes registered_once [''text/csv''] = Some [''text/csv'', ''text/html'']
   \<and> listTargetMimeTypes
        (snd (dispose (fst (register csv_to_html registered_once))
                      (snd (register csv_to_html registered_once))))
        [''text/csv''] = Some [''text/csv'']
   \<and> map snd (emitted (snd (dispose (fst (register csv_to_html registered_once))
                                      (snd (register csv_to_html registered_once)))))
       = map snd (emitted registered_once) @ [added, removed]"
  by (simp add: listTargetMimeTypes_def registered_once_def csv_to_html_def register_def dispose_def
        new_registry_def set_delete_def registry_reachable_unfold reachable_def js_set_def
        set_add_def conv_defs bfs_defs bfs.simps)

section \<open>The inconsistent-source error\<close>

text \<open>
  C10. \<open>convert\<close> raises the inconsistent-source error if and only if the set of URL
  objects collected from the source datasets, compared by object identity, does not
  contain exactly one element. In particular an empty list of source datasets raises it,
  and so do two datasets whose URLs are equal as strings but are distinct objects. This
  holds whatever the two functions of the graph module are.
\<close>

theorem convert_throws_iff_not_one_url:
  "((\<exists>evs. convert_with graph_reachable graph_expandPath r sourceDatasets targetMimeType
             = Some (evs, Some InconsistentSource))
      \<longleftrightarrow> card (url_ref ` url ` set sourceDatasets) \<noteq> 1)
   \<and> convert_with graph_reachable graph_expandPath r [] targetMimeType
        = Some ([], Some InconsistentSource)
   \<and> (url_ref (url d1) \<noteq> url_ref (url d2) \<and> href (url d1) = href (url d2)
        \<longrightarrow> convert_with graph_reachable graph_expandPath r [d1, d2] targetMimeType
            = Some ([], Some InconsistentSource))"
proof (intro conjI impI)
  show "(\<exists>evs. convert_with graph_reachable graph_expandPath r sourceDatasets targetMimeType
             = Some (evs, Some InconsistentSource))
      \<longleftrightarrow> card (url_ref ` url ` set sourceDatasets) \<noteq> 1"
  proof
    assume "\<exists>evs. convert_with graph_reachable graph_expandPath r sourceDatasets targetMimeType
             = Some (evs, Some InconsistentSource)"
    then obtain evs where c: "convert_with graph_reachable graph_expandPath r sourceDatasets targetMimeType
             = Some (evs, Some InconsistentSource)" ..
    show "card (url_ref ` url ` set sourceDatasets) \<noteq> 1"
    proof
      assume "card (url_ref ` url ` set sourceDatasets) = 1"
      then obtain u where u: "collect_urls sourceDatasets = [u]" using collect_urls_single by blast
      with c obtain paths where
        "convert_loop sourceDatasets u (collect_datas sourceDatasets)
           (graph_expandPath targetMimeType (map_of paths targetMimeType)) = (evs, Some InconsistentSource)"
        by (auto simp: convert_with_def split: option.splits)
      then have "snd (convert_loop sourceDatasets u (collect_datas sourceDatasets)
           (graph_expandPath targetMimeType (map_of paths targetMimeType))) = Some InconsistentSource"
        by simp
      then show False by (simp add: convert_loop_not_inconsistent)
    qed
  next
    assume "card (url_ref ` url ` set sourceDatasets) \<noteq> 1"
    then show "\<exists>evs. convert_with graph_reachable graph_expandPath r sourceDatasets targetMimeType
             = Some (evs, Some InconsistentSource)"
      by (simp add: convert_with_inconsistent)
  qed
next
  show "convert_with graph_reachable graph_expandPath r [] targetMimeType
          = Some ([], Some InconsistentSource)"
    by (rule convert_with_inconsistent) simp
next
  assume "url_ref (url d1) \<noteq> url_ref (url d2) \<and> href (url d1) = href (url d2)"
  then have "card (url_ref ` url ` set [d1, d2]) = 2" by simp
  then show "convert_with graph_reachable graph_expandPath r [d1, d2] targetMimeType
               = Some ([], Some InconsistentSource)"
    by (intro convert_with_inconsistent) simp
qed

theorem convert_throws_iff_not_one_url_witness:
  "url_ref \<lparr>url_ref = 1, protocol = ''http:'', href = ''http://a/x.csv''\<rparr>
     \<noteq> url_ref \<lparr>url_ref = 2, protocol = ''http:'', href = ''http://a/x.csv''\<rparr>
   \<and> href \<lparr>url_ref = 1, protocol = ''http:'', href = ''http://a/x.csv''\<rparr>
     = href \<lparr>url_ref = 2, protocol = ''http:'', href = ''http://a/x.csv''\<rparr>
   \<and> convert new_registry
     [\<lparr>mimeType = ''text/csv'', url = \<lparr>url_ref = 1, protocol = ''http:'', href = ''http://a/x.csv''\<rparr>, data = ''1,2''\<rparr>,
      \<lparr>mimeType = ''text/plain'', url = \<lparr>url_ref = 2, protocol = ''http:'', href = ''http://a/x.csv''\<rparr>, data = ''12''\<rparr>]
     ''text/html'' = Some ([], Some InconsistentSource)"
  using convert_throws_iff_not_one_url
        [of reachable expandPath new_registry "[]" "''text/html''"
            "\<lparr>mimeType = ''text/csv'', url = \<lparr>url_ref = 1, protocol = ''http:'', href = ''http://a/x.csv''\<rparr>, data = ''1,2''\<rparr>"
            "\<lparr>mimeType = ''text/plain'', url = \<lparr>url_ref = 2, protocol = ''http:'', href = ''http://a/x.csv''\<rparr>, data = ''12''\<rparr>"]
  by (simp add: convert_def)

end
